theory Spec2Isabelle
  imports Main "HOL-Library.Sublist"
begin

section \<open>Characters and the string primitives of the source language\<close>

text \<open>
  A text is a \<open>string\<close> (a list of \<open>char\<close>); a \<open>char\<close> is read as a code point
  below 256. The three character classes and the case mapping are the ones Python's
  \<open>str\<close> methods and its \<open>re\<close> module use on these code points: \<open>\s\<close> and
  \<open>str.strip\<close>/\<open>str.split\<close> share one whitespace set, \<open>\w\<close> is alphanumeric or
  underscore, \<open>\d\<close> is a decimal digit, and \<open>str.lower\<close> adds 32 to the upper-case letters.
  A value that may be \<open>None\<close> in the source is an \<open>option\<close>.
\<close>

definition is_space :: "char \<Rightarrow> bool" where
  "is_space c = (let n = (of_char c :: nat) in
     (9 \<le> n \<and> n \<le> 13) \<or> (28 \<le> n \<and> n \<le> 32) \<or> n = 133 \<or> n = 160)"

definition is_digit :: "char \<Rightarrow> bool" where
  "is_digit c = (let n = (of_char c :: nat) in 48 \<le> n \<and> n \<le> 57)"

definition is_word :: "char \<Rightarrow> bool" where
  "is_word c = (let n = (of_char c :: nat) in
     (48 \<le> n \<and> n \<le> 57) \<or> (65 \<le> n \<and> n \<le> 90) \<or> n = 95 \<or> (97 \<le> n \<and> n \<le> 122) \<or>
     n = 170 \<or> n = 178 \<or> n = 179 \<or> n = 181 \<or> n = 185 \<or> n = 186 \<or>
     (188 \<le> n \<and> n \<le> 190) \<or> (192 \<le> n \<and> n \<le> 214) \<or> (216 \<le> n \<and> n \<le> 246) \<or>
     248 \<le> n)"

definition lower_char :: "char \<Rightarrow> char" where
  "lower_char c = (let n = (of_char c :: nat) in
     if (65 \<le> n \<and> n \<le> 90) \<or> (192 \<le> n \<and> n \<le> 214) \<or> (216 \<le> n \<and> n \<le> 222)
     then char_of (n + 32) else c)"

definition lower :: "string \<Rightarrow> string" where
  "lower s = map lower_char s"

text \<open>\<open>s.strip()\<close>: whitespace removed at both ends.\<close>

definition strip :: "string \<Rightarrow> string" where
  "strip s = rev (dropWhile is_space (rev (dropWhile is_space s)))"

text \<open>
  \<open>s.split(sep)\<close> for a one-character separator cuts at every separator and always
  returns at least one piece; \<open>s.split()\<close> cuts at whitespace and drops the empty pieces.
\<close>

fun split_by :: "(char \<Rightarrow> bool) \<Rightarrow> string \<Rightarrow> string list" where
  "split_by P [] = [[]]"
| "split_by P (c # cs) =
     (if P c then [] # split_by P cs
      else (case split_by P cs of [] \<Rightarrow> [[c]] | w # ws \<Rightarrow> (c # w) # ws))"

definition split_on :: "char \<Rightarrow> string \<Rightarrow> string list" where
  "split_on sep s = split_by (\<lambda>c. c = sep) s"

definition split_ws :: "string \<Rightarrow> string list" where
  "split_ws s = filter (\<lambda>w. w \<noteq> []) (split_by is_space s)"

text \<open>\<open>sep.join(ws)\<close>.\<close>

fun join :: "string \<Rightarrow> string list \<Rightarrow> string" where
  "join sep [] = []"
| "join sep [w] = w"
| "join sep (w # ws) = w @ sep @ join sep ws"

text \<open>\<open>sub in t\<close> on strings: \<open>sub\<close> occurs in \<open>t\<close> as a contiguous piece.\<close>

fun starts_with :: "string \<Rightarrow> string \<Rightarrow> bool" where
  "starts_with [] t = True"
| "starts_with (c # cs) [] = False"
| "starts_with (c # cs) (d # ds) = (c = d \<and> starts_with cs ds)"

fun contains :: "string \<Rightarrow> string \<Rightarrow> bool" where
  "contains sub [] = (sub = [])"
| "contains sub (c # cs) = (starts_with sub (c # cs) \<or> contains sub cs)"

datatype py_error = ConfigError | TypeError | IndexError | ValueError

section \<open>Regular expressions\<close>

text \<open>
  The patterns of the source use literals, one-character classes, greedy bounded and
  unbounded repetition of a one-character class, sequence, alternation, one capturing
  group, \<open>\b\<close> and the negative look-arounds \<open>(?<!\w)\<close> and \<open>(?!\w)\<close>.
  A one-character class is a predicate on characters.

  \<open>rx_match r st\<close> is the backtracking matcher: every way \<open>r\<close> can match at the
  state \<open>st\<close>, in the order the matcher tries them (a greedy repetition tries the longest
  run first, an alternation its branches from left to right), so the head of the list is
  the match Python reports. A state is the character before the position (\<open>None\<close> at
  the start of the text), the text from the position on, and the content of group 1.
\<close>

datatype rx =
    Eps
  | Atom "char \<Rightarrow> bool"
  | Rep "char \<Rightarrow> bool" nat "nat option"
  | Seq rx rx
  | Or rx rx
  | Grp rx
  | WordB
  | NotBehind "char \<Rightarrow> bool"
  | NotAhead "char \<Rightarrow> bool"

type_synonym mstate = "char option \<times> string \<times> string option"

definition at_word :: "char option \<Rightarrow> bool" where
  "at_word p = (case p of None \<Rightarrow> False | Some c \<Rightarrow> is_word c)"

definition next_char :: "string \<Rightarrow> char option" where
  "next_char s = (case s of [] \<Rightarrow> None | c # _ \<Rightarrow> Some c)"

definition advance :: "mstate \<Rightarrow> nat \<Rightarrow> mstate" where
  "advance st k = (case st of (p, s, g) \<Rightarrow>
     (if k = 0 then p else Some (s ! (k - 1)), drop k s, g))"

primrec rx_match :: "rx \<Rightarrow> mstate \<Rightarrow> mstate list" where
  "rx_match Eps st = [st]"
| "rx_match (Atom P) st =
     (case st of (p, s, g) \<Rightarrow>
        (case s of [] \<Rightarrow> [] | c # cs \<Rightarrow> if P c then [(Some c, cs, g)] else []))"
| "rx_match (Rep P lo hi) st =
     (case st of (p, s, g) \<Rightarrow>
        (let n = length (takeWhile P s);
             m = (case hi of None \<Rightarrow> n | Some h \<Rightarrow> min h n)
         in map (advance st) (rev [lo..<Suc m])))"
| "rx_match (Seq a b) st = concat (map (rx_match b) (rx_match a st))"
| "rx_match (Or a b) st = rx_match a st @ rx_match b st"
| "rx_match (Grp a) st =
     (case st of (p, s, g) \<Rightarrow>
        map (\<lambda>(p', s', g'). (p', s', Some (take (length s - length s') s))) (rx_match a st))"
| "rx_match WordB st =
     (case st of (p, s, g) \<Rightarrow> if at_word p \<noteq> at_word (next_char s) then [st] else [])"
| "rx_match (NotBehind P) st =
     (case st of (p, s, g) \<Rightarrow>
        (case p of None \<Rightarrow> [st] | Some c \<Rightarrow> if P c then [] else [st]))"
| "rx_match (NotAhead P) st =
     (case st of (p, s, g) \<Rightarrow>
        (case s of [] \<Rightarrow> [st] | c # _ \<Rightarrow> if P c then [] else [st]))"

text \<open>A sequence of patterns, a literal character and a literal string.\<close>

definition seqs :: "rx list \<Rightarrow> rx" where
  "seqs rs = foldr Seq rs Eps"

definition lit :: "char \<Rightarrow> rx" where
  "lit c = Atom (\<lambda>x. x = c)"

definition lits :: "string \<Rightarrow> rx" where
  "lits s = seqs (map lit s)"

text \<open>
  \<open>rx.search(t)\<close>: the first match at the leftmost position that has one.
  \<open>search_from r p s\<close> scans \<open>s\<close>, whose preceding character is \<open>p\<close>.
\<close>

fun search_from :: "rx \<Rightarrow> char option \<Rightarrow> string \<Rightarrow> mstate option" where
  "search_from r p [] = (case rx_match r (p, [], None) of [] \<Rightarrow> None | m # _ \<Rightarrow> Some m)"
| "search_from r p (c # cs) =
     (case rx_match r (p, c # cs, None) of
        [] \<Rightarrow> search_from r (Some c) cs
      | m # _ \<Rightarrow> Some m)"

definition re_search :: "rx \<Rightarrow> string \<Rightarrow> bool" where
  "re_search r t = (search_from r None t \<noteq> None)"

text \<open>
  \<open>re.finditer(p, t)\<close>: the matches from left to right, each search resuming where the
  previous match ended (one character further after an empty match). The result lists
  group 1 of every match.
\<close>

fun finditer_from :: "rx \<Rightarrow> char option \<Rightarrow> string \<Rightarrow> string option list" where
  "finditer_from r p [] = (case rx_match r (p, [], None) of [] \<Rightarrow> [] | (_, _, g) # _ \<Rightarrow> [g])"
| "finditer_from r p (c # cs) =
     (case rx_match r (p, c # cs, None) of
        [] \<Rightarrow> finditer_from r (Some c) cs
      | (_, s', g) # _ \<Rightarrow>
          (let k = length cs - length s'
           in g # finditer_from r (Some ((c # cs) ! k)) (drop k cs)))"

definition finditer :: "rx \<Rightarrow> string \<Rightarrow> string option list" where
  "finditer r t = finditer_from r None t"

text \<open>
  \<open>re.sub(p, repl, t)\<close>: every match, found as by \<open>finditer\<close>, is replaced by
  \<open>repl\<close>; the text between matches is kept.
\<close>

fun sub_from :: "rx \<Rightarrow> string \<Rightarrow> char option \<Rightarrow> string \<Rightarrow> string" where
  "sub_from r repl p [] = (case rx_match r (p, [], None) of [] \<Rightarrow> [] | _ # _ \<Rightarrow> repl)"
| "sub_from r repl p (c # cs) =
     (case rx_match r (p, c # cs, None) of
        [] \<Rightarrow> c # sub_from r repl (Some c) cs
      | (_, s', _) # _ \<Rightarrow>
          (if length s' > length cs then repl @ c # sub_from r repl (Some c) cs
           else (let k = length cs - length s'
                 in repl @ sub_from r repl (Some ((c # cs) ! k)) (drop k cs))))"

definition re_sub :: "rx \<Rightarrow> string \<Rightarrow> string \<Rightarrow> string" where
  "re_sub r repl t = sub_from r repl None t"


section \<open>Cleaning stage: \<open>processing/clean_transform.py\<close>\<close>

definition US_STATES :: "(string \<times> string) list" where
  "US_STATES = [
    (''AL'', ''Alabama''), (''AK'', ''Alaska''), (''AZ'', ''Arizona''), (''AR'', ''Arkansas''),
    (''CA'', ''California''), (''CO'', ''Colorado''), (''CT'', ''Connecticut''),
    (''DE'', ''Delaware''), (''FL'', ''Florida''), (''GA'', ''Georgia''), (''HI'', ''Hawaii''),
    (''ID'', ''Idaho''), (''IL'', ''Illinois''), (''IN'', ''Indiana''), (''IA'', ''Iowa''),
    (''KS'', ''Kansas''), (''KY'', ''Kentucky''), (''LA'', ''Louisiana''), (''ME'', ''Maine''),
    (''MD'', ''Maryland''), (''MA'', ''Massachusetts''), (''MI'', ''Michigan''),
    (''MN'', ''Minnesota''), (''MS'', ''Mississippi''), (''MO'', ''Missouri''),
    (''MT'', ''Montana''), (''NE'', ''Nebraska''), (''NV'', ''Nevada''),
    (''NH'', ''New Hampshire''), (''NJ'', ''New Jersey''), (''NM'', ''New Mexico''),
    (''NY'', ''New York''), (''NC'', ''North Carolina''), (''ND'', ''North Dakota''),
    (''OH'', ''Ohio''), (''OK'', ''Oklahoma''), (''OR'', ''Oregon''), (''PA'', ''Pennsylvania''),
    (''RI'', ''Rhode Island''), (''SC'', ''South Carolina''), (''SD'', ''South Dakota''),
    (''TN'', ''Tennessee''), (''TX'', ''Texas''), (''UT'', ''Utah''), (''VT'', ''Vermont''),
    (''VA'', ''Virginia''), (''WA'', ''Washington''), (''WV'', ''West Virginia''),
    (''WI'', ''Wisconsin''), (''WY'', ''Wyoming'')]"

definition STATE_NAMES :: "string list" where
  "STATE_NAMES = map snd US_STATES"

definition STATE_ABBRS :: "string list" where
  "STATE_ABBRS = map fst US_STATES"

text \<open>The patterns \<open><[^>]+>\<close> and \<open>\s+\<close>.\<close>

definition tag_rx :: rx where
  "tag_rx = seqs [lit (CHR ''<''), Rep (\<lambda>c. c \<noteq> CHR ''>'') 1 None, lit (CHR ''>'')]"

definition ws_run :: rx where
  "ws_run = Rep is_space 1 None"

definition clean_text :: "string option \<Rightarrow> string option" where
  "clean_text html_text =
     (case html_text of
        None \<Rightarrow> None
      | Some h \<Rightarrow>
          if h = [] then None
          else Some (strip (re_sub ws_run '' '' (re_sub tag_rx '' '' h))))"

text \<open>
  \<open>US_STATES[k]\<close> raises on a missing key and \<open>xs[0]\<close> on an empty list; both are
  results of the model.
\<close>

definition state_of_abbr :: "string \<Rightarrow> py_error + string" where
  "state_of_abbr k = (case map_of US_STATES k of None \<Rightarrow> Inl IndexError | Some v \<Rightarrow> Inr v)"

definition first_token :: "string \<Rightarrow> py_error + string" where
  "first_token s = (case split_ws s of [] \<Rightarrow> Inl IndexError | w # _ \<Rightarrow> Inr (strip w))"

definition parse_city_state ::
    "string option \<Rightarrow> py_error + (string option \<times> string option)" where
  "parse_city_state location_raw =
     (case location_raw of
        None \<Rightarrow> Inr (None, None)
      | Some raw \<Rightarrow>
          if raw = [] then Inr (None, None)
          else
            (let loc = strip raw;
                 parts = map strip (filter (\<lambda>p. strip p \<noteq> []) (split_on (CHR '','') loc))
             in if length parts \<ge> 2 then
                  (let city = Some (parts ! 0);
                       maybe_state = parts ! 1
                   in if maybe_state \<in> set STATE_ABBRS then
                        (case state_of_abbr maybe_state of
                           Inl e \<Rightarrow> Inl e | Inr st \<Rightarrow> Inr (city, Some st))
                      else if maybe_state \<in> set STATE_NAMES then Inr (city, Some maybe_state)
                      else
                        (case first_token maybe_state of
                           Inl e \<Rightarrow> Inl e
                         | Inr token \<Rightarrow>
                             if token \<in> set STATE_ABBRS then
                               (case state_of_abbr token of
                                  Inl e \<Rightarrow> Inl e | Inr st \<Rightarrow> Inr (city, Some st))
                             else if token \<in> set STATE_NAMES then Inr (city, Some token)
                             else Inr (city, None)))
                else
                  (let tokens = split_ws loc
                   in if tokens \<noteq> [] then
                        (let last_tok = strip (last tokens)
                         in if last_tok \<in> set STATE_ABBRS then
                              (case state_of_abbr last_tok of
                                 Inl e \<Rightarrow> Inl e
                               | Inr st \<Rightarrow>
                                   (let c = strip (join '' '' (butlast tokens))
                                    in Inr (if c = [] then None else Some c, Some st)))
                            else Inr (Some loc, None))
                      else Inr (None, None))))"

text \<open>
  The caller's fallback in \<open>main\<close>: \<open>if not state and r.get("query_state")\<close>.
  A value is false when it is \<open>None\<close> or the empty string.
\<close>

definition truthy_str :: "string option \<Rightarrow> bool" where
  "truthy_str v = (case v of None \<Rightarrow> False | Some s \<Rightarrow> s \<noteq> [])"

definition state_with_fallback :: "string option \<Rightarrow> string option \<Rightarrow> string option" where
  "state_with_fallback state query_state =
     (if \<not> truthy_str state \<and> truthy_str query_state then query_state else state)"

text \<open>One row of \<open>main\<close>: the parsed location with the fallback applied.\<close>

definition clean_location ::
    "string option \<Rightarrow> string option \<Rightarrow> py_error + (string option \<times> string option)" where
  "clean_location location query_state =
     (case parse_city_state location of
        Inl e \<Rightarrow> Inl e
      | Inr (city, state) \<Rightarrow> Inr (city, state_with_fallback state query_state))"


section \<open>Feature stage: \<open>features/extract_features.py\<close>\<close>

text \<open>\<open>x or ""\<close> on a string that may be \<open>None\<close>.\<close>

definition or_empty :: "string option \<Rightarrow> string" where
  "or_empty v = (case v of None \<Rightarrow> [] | Some s \<Rightarrow> s)"

text \<open>The classes \<open>[/,_\-|]\<close> and \<open>[^\w\s\+]\<close>.\<close>

definition is_separator :: "char \<Rightarrow> bool" where
  "is_separator c = (c \<in> set ''/,_-|'')"

definition is_other :: "char \<Rightarrow> bool" where
  "is_other c = (\<not> is_word c \<and> \<not> is_space c \<and> c \<noteq> CHR ''+'')"

definition normalize_text :: "string option \<Rightarrow> string" where
  "normalize_text s =
     (case s of
        None \<Rightarrow> []
      | Some s0 \<Rightarrow>
          if s0 = [] then []
          else
            (let s1 = lower s0;
                 s2 = re_sub (Atom is_separator) '' '' s1;
                 s3 = re_sub (Atom is_other) '' '' s2
             in strip (re_sub ws_run '' '' s3)))"

text \<open>The patterns \<open>\bml\b\<close> and \<open>\bbi\b\<close>.\<close>

definition token_rx :: "string \<Rightarrow> rx" where
  "token_rx w = seqs [WordB, lits w, WordB]"

definition classify_role_family :: "string option \<Rightarrow> string" where
  "classify_role_family title =
     (let t = lower (or_empty title)
      in if contains ''data engineer'' t \<or> contains ''etl'' t \<or> contains ''pipeline'' t
         then ''Data Engineering''
         else if contains ''data scientist'' t \<or> contains ''machine learning'' t \<or>
                 re_search (token_rx ''ml'') t
         then ''Data Science''
         else if contains ''business intelligence'' t \<or> contains ''power bi'' t \<or>
                 contains ''tableau'' t \<or> re_search (token_rx ''bi'') t
         then ''Business Intelligence''
         else if contains ''analyst'' t \<or> contains ''analytics'' t
         then ''Analytics''
         else ''Other'')"

text \<open>\<open>any(x in t for x in xs)\<close>.\<close>

definition any_in :: "string list \<Rightarrow> string \<Rightarrow> bool" where
  "any_in xs t = list_ex (\<lambda>x. contains x t) xs"

definition infer_seniority :: "string option \<Rightarrow> string" where
  "infer_seniority title =
     (let t = lower (or_empty title)
      in if any_in [''intern'', ''co-op'', ''student''] t then ''Intern''
         else if any_in [''director'', ''head'', ''vp'', ''vice president'', ''manager''] t
         then ''Management''
         else if any_in [''principal'', ''staff'', ''lead'', ''senior'', ''sr.'', ''sr ''] t
         then ''Senior''
         else if any_in [''junior'', ''jr.'', ''entry'', ''associate'', ''new grad''] t
         then ''Entry''
         else ''Mid'')"

definition infer_remote :: "string option \<Rightarrow> bool" where
  "infer_remote text_blob =
     (let t = lower (or_empty text_blob)
      in any_in [''remote'', ''work from home'', ''wfh'', ''telecommute'', ''fully remote'',
                 ''100% remote'', ''anywhere''] t)"

text \<open>
  The four patterns of \<open>extract_years_experience\<close>, in the order of the source:
  \<^verbatim>\<open>(\d{1,2})\s*\+\s*(?:years|yrs)\b\<close>,
  \<^verbatim>\<open>minimum\s+(\d{1,2})\s*(?:years|yrs)\b\<close>,
  \<^verbatim>\<open>at\s+least\s+(\d{1,2})\s*(?:years|yrs)\b\<close>,
  \<^verbatim>\<open>(\d{1,2})\s*(?:years|yrs)\s+of\s+experience\<close>.
\<close>

definition num_grp :: rx where
  "num_grp = Grp (Rep is_digit 1 (Some 2))"

definition ws0 :: rx where
  "ws0 = Rep is_space 0 None"

definition unit_rx :: rx where
  "unit_rx = Or (lits ''years'') (lits ''yrs'')"

definition patterns :: "rx list" where
  "patterns =
     [seqs [num_grp, ws0, lit (CHR ''+''), ws0, unit_rx, WordB],
      seqs [lits ''minimum'', ws_run, num_grp, ws0, unit_rx, WordB],
      seqs [lits ''at'', ws_run, lits ''least'', ws_run, num_grp, ws0, unit_rx, WordB],
      seqs [num_grp, ws0, unit_rx, ws_run, lits ''of'', ws_run, lits ''experience'']]"

text \<open>
  \<open>int(m.group(1))\<close>. A group that took no part in the match is \<open>None\<close>, on which
  \<open>int\<close> raises \<open>TypeError\<close>; a string of decimal digits is read in base ten; any other
  string is reported as \<open>ValueError\<close>.
\<close>

definition digit_val :: "char \<Rightarrow> int" where
  "digit_val c = int (of_char c) - 48"

definition py_int :: "string option \<Rightarrow> py_error + int" where
  "py_int g =
     (case g of
        None \<Rightarrow> Inl TypeError
      | Some s \<Rightarrow>
          if s \<noteq> [] \<and> list_all is_digit s
          then Inr (foldl (\<lambda>acc c. 10 * acc + digit_val c) 0 s)
          else Inl ValueError)"

text \<open>
  The inner loop over the matches of one pattern, with its \<open>try\<close>/\<open>except: pass\<close>:
  \<open>hits\<close> grows by the integer of each group 1, and a candidate on which
  \<open>int\<close> raises adds nothing. The outer loop threads \<open>hits\<close> through the four
  patterns.
\<close>

fun collect_hits :: "string option list \<Rightarrow> int list \<Rightarrow> int list" where
  "collect_hits [] hits = hits"
| "collect_hits (g # gs) hits =
     (case py_int g of
        Inl _ \<Rightarrow> collect_hits gs hits
      | Inr n \<Rightarrow> collect_hits gs (hits @ [n]))"

definition all_hits :: "string \<Rightarrow> int list" where
  "all_hits t = foldl (\<lambda>hits p. collect_hits (finditer p t) hits) [] patterns"

text \<open>\<open>Decimal(n)\<close> of an integer \<open>n\<close> is exactly \<open>n\<close>; the result is that integer.\<close>

definition extract_years_experience :: "string option \<Rightarrow> int option" where
  "extract_years_experience text_blob =
     (let t = normalize_text (Some (or_empty text_blob));
          hits = all_hits t
      in if hits \<noteq> [] then Some (min_list hits) else None)"

subsection \<open>The skill configuration and its compilation\<close>

text \<open>
  The value read from the configuration file is any YAML value. The model has the
  scalars null, booleans, integers and strings; an alias entry is a scalar, a list of
  scalars or a mapping with scalar keys and values; the skills entry is a scalar, a list
  or a mapping from scalars to alias entries.
\<close>

datatype scalar = SNull | SBool bool | SInt int | SStr string

datatype yval = YScalar scalar | YList "scalar list" | YMap "(scalar \<times> scalar) list"

datatype ycfg = CScalar scalar | CList "yval list" | CMap "(scalar \<times> yval) list"

fun digits_of :: "nat \<Rightarrow> string" where
  "digits_of n =
     (if n < 10 then [char_of (48 + n)] else digits_of (n div 10) @ [char_of (48 + n mod 10)])"

text \<open>\<open>str(x)\<close> on a scalar.\<close>

fun py_str :: "scalar \<Rightarrow> string" where
  "py_str SNull = ''None''"
| "py_str (SBool b) = (if b then ''True'' else ''False'')"
| "py_str (SInt i) = (if i < 0 then CHR ''-'' # digits_of (nat (- i)) else digits_of (nat i))"
| "py_str (SStr s) = s"

text \<open>Truth value of an alias entry: null, false, zero and the empty containers are false.\<close>

fun truthy :: "yval \<Rightarrow> bool" where
  "truthy (YScalar SNull) = False"
| "truthy (YScalar (SBool b)) = b"
| "truthy (YScalar (SInt i)) = (i \<noteq> 0)"
| "truthy (YScalar (SStr s)) = (s \<noteq> [])"
| "truthy (YList xs) = (xs \<noteq> [])"
| "truthy (YMap kvs) = (kvs \<noteq> [])"

text \<open>
  \<open>for a in aliases\<close>: a list yields its elements, a mapping its keys, a string its
  characters; the other scalars are not iterable.
\<close>

fun py_iter :: "yval \<Rightarrow> py_error + scalar list" where
  "py_iter (YList xs) = Inr xs"
| "py_iter (YMap kvs) = Inr (map fst kvs)"
| "py_iter (YScalar (SStr s)) = Inr (map (\<lambda>c. SStr [c]) s)"
| "py_iter (YScalar _) = Inl TypeError"

text \<open>
  The guard on \<open>skills_map\<close>:
  \<open>if not isinstance(skills_map, dict) or not skills_map: raise\<close>.
\<close>

fun skills_map :: "ycfg \<Rightarrow> py_error + (scalar \<times> yval) list" where
  "skills_map (CMap m) = (if m = [] then Inl ConfigError else Inr m)"
| "skills_map _ = Inl ConfigError"

text \<open>
  \<open>re.escape(a).replace(r"\ ", r"\s+")\<close> under the flag \<open>(?i)\<close>: a space of the
  alias becomes \<open>\s+\<close>, every other character a literal that matches up to case.
\<close>

definition lit_i :: "char \<Rightarrow> rx" where
  "lit_i c = Atom (\<lambda>x. lower_char x = lower_char c)"

definition alias_item :: "char \<Rightarrow> rx" where
  "alias_item c = (if c = CHR '' '' then ws_run else lit_i c)"

definition alias_pattern :: "string \<Rightarrow> rx" where
  "alias_pattern a = seqs (map alias_item a)"

text \<open>
  \<open>"|".join(alias_patterns)\<close> read as a pattern: the alternation of the patterns, and
  the empty pattern when there is none.
\<close>

fun alts :: "rx list \<Rightarrow> rx" where
  "alts [] = Eps"
| "alts [r] = r"
| "alts (r # rs) = Or r (alts rs)"

definition skill_rx :: "string list \<Rightarrow> rx" where
  "skill_rx alias_list =
     seqs [NotBehind is_word, Grp (alts (map alias_pattern alias_list)), NotAhead is_word]"

definition alias_list_of :: "scalar list \<Rightarrow> string list" where
  "alias_list_of xs =
     map (\<lambda>a. lower (strip (py_str a))) (filter (\<lambda>a. strip (py_str a) \<noteq> []) xs)"

fun compile_entries :: "(scalar \<times> yval) list \<Rightarrow> py_error + (string \<times> rx) list" where
  "compile_entries [] = Inr []"
| "compile_entries ((canonical, aliases) # rest) =
     (if \<not> truthy aliases then compile_entries rest
      else
        (case py_iter aliases of
           Inl e \<Rightarrow> Inl e
         | Inr xs \<Rightarrow>
             (let canonical_norm = lower (strip (py_str canonical));
                  rx = skill_rx (alias_list_of xs)
              in case compile_entries rest of
                   Inl e \<Rightarrow> Inl e
                 | Inr cs \<Rightarrow> Inr ((canonical_norm, rx) # cs))))"

definition compiled :: "ycfg \<Rightarrow> py_error + (string \<times> rx) list" where
  "compiled cfg = (case skills_map cfg of Inl e \<Rightarrow> Inl e | Inr m \<Rightarrow> compile_entries m)"

definition extract_skills ::
    "(string \<times> rx) list \<Rightarrow> string option \<Rightarrow> string list \<times> string list" where
  "extract_skills cs text_blob =
     (let t = normalize_text (Some (or_empty text_blob));
          found = map fst (filter (\<lambda>(canonical, rx). re_search rx t) cs)
      in (found, take 10 found))"

text \<open>
  The module as a whole: the configuration is compiled when the module is loaded, and
  \<open>extract_skills\<close> then runs against the compiled matchers.
\<close>

definition load_and_extract ::
    "ycfg \<Rightarrow> string option \<Rightarrow> py_error + (string list \<times> string list)" where
  "load_and_extract cfg text_blob =
     (case compiled cfg of Inl e \<Rightarrow> Inl e | Inr cs \<Rightarrow> Inr (extract_skills cs text_blob))"

definition baseline_skills_for_role :: "string option \<Rightarrow> string list" where
  "baseline_skills_for_role role_family =
     (let role = strip (case role_family of None \<Rightarrow> ''Other'' | Some r \<Rightarrow> if r = [] then ''Other'' else r)
      in case map_of
           [(''Analytics'', [''sql'', ''excel'']),
            (''Business Intelligence'', [''sql'', ''power bi'', ''tableau'']),
            (''Data Engineering'', [''sql'', ''python'', ''etl'', ''cloud'']),
            (''Data Science'', [''python'', ''statistics'', ''machine learning'']),
            (''Other'', [])] role of
           None \<Rightarrow> []
         | Some v \<Rightarrow> v)"

text \<open>One row of \<open>main\<close>: the input columns and the derived feature record.\<close>

record posting =
  title :: "string option"
  location_raw :: "string option"
  description_clean :: "string option"

record features =
  role_family :: string
  seniority :: string
  is_remote :: bool
  years_experience_min :: "int option"
  skills :: "string list"
  skills_count :: nat
  top_skills :: "string list"
  has_explicit_skills :: bool
  role_baseline_skills :: "string list"

definition blob_of :: "posting \<Rightarrow> string" where
  "blob_of r = or_empty (title r) @ [CHR 0x0A] @ or_empty (location_raw r) @ [CHR 0x0A] @
     or_empty (description_clean r)"

definition feature_row :: "(string \<times> rx) list \<Rightarrow> posting \<Rightarrow> features" where
  "feature_row cs r =
     (let ttl = or_empty (title r);
          blob = blob_of r;
          rf = classify_role_family (Some ttl);
          found = extract_skills cs (Some blob);
          cnt = length (fst found)
      in \<lparr> role_family = rf,
           seniority = infer_seniority (Some ttl),
           is_remote = infer_remote (Some blob),
           years_experience_min = extract_years_experience (Some blob),
           skills = fst found,
           skills_count = cnt,
           top_skills = snd found,
           has_explicit_skills = (cnt > 0),
           role_baseline_skills = baseline_skills_for_role (Some rf) \<rparr>)"


section \<open>Notions of the specification\<close>

text \<open>
  A piece of angle-bracket markup: \<open><\<close>, one or more characters other than \<open>>\<close>,
  then \<open>>\<close>.
\<close>

definition is_tag :: "string \<Rightarrow> bool" where
  "is_tag t =
     (case t of
        [] \<Rightarrow> False
      | c # r \<Rightarrow> c = CHR ''<'' \<and> r \<noteq> [] \<and> last r = CHR ''>'' \<and> butlast r \<noteq> [] \<and>
                 CHR ''>'' \<notin> set (butlast r))"

text \<open>
  The state a token resolves to: the full name of a recognised two-letter abbreviation,
  or the token itself when it is a full state name.
\<close>

definition resolve_state :: "string \<Rightarrow> string option" where
  "resolve_state w =
     (if w \<in> set STATE_ABBRS then map_of US_STATES w
      else if w \<in> set STATE_NAMES then Some w else None)"

text \<open>The comma-separated parts of a location: trimmed, the empty ones dropped.\<close>

definition location_parts :: "string \<Rightarrow> string list" where
  "location_parts raw =
     map strip (filter (\<lambda>p. strip p \<noteq> []) (split_on (CHR '','') (strip raw)))"

text \<open>
  The state given by the second part: the part itself when it resolves, otherwise its
  first whitespace-delimited token.
\<close>

definition state_from_part :: "string \<Rightarrow> string option" where
  "state_from_part m =
     (case resolve_state m of
        Some st \<Rightarrow> Some st
      | None \<Rightarrow> (case split_ws m of [] \<Rightarrow> None | tok # _ \<Rightarrow> resolve_state tok))"

text \<open>
  The result for a location without a second part: a trailing recognised abbreviation
  gives the state and the city is what precedes it (null when nothing does); otherwise
  the whole string is the city and no state is determined.
\<close>

definition one_part_result :: "string \<Rightarrow> string option \<times> string option" where
  "one_part_result loc =
     (let tokens = split_ws loc
      in if last tokens \<in> set STATE_ABBRS
         then (if butlast tokens = [] then None else Some (join '' '' (butlast tokens)),
               map_of US_STATES (last tokens))
         else (Some loc, None))"

text \<open>A mapping of string to list: every key is a string and every value a list.\<close>

definition string_to_list_mapping :: "ycfg \<Rightarrow> bool" where
  "string_to_list_mapping cfg =
     (case cfg of
        CMap m \<Rightarrow> list_all (\<lambda>(k, v). (case k of SStr _ \<Rightarrow> True | _ \<Rightarrow> False) \<and>
                                  (case v of YList _ \<Rightarrow> True | _ \<Rightarrow> False)) m
      | _ \<Rightarrow> False)"

text \<open>
  The canonical names of a dictionary in definition order: the trimmed, lower-cased keys
  of the entries whose alias entry is not empty.
\<close>

definition canonical_names :: "(scalar \<times> yval) list \<Rightarrow> string list" where
  "canonical_names m = map (\<lambda>(k, v). lower (strip (py_str k))) (filter (\<lambda>(k, v). truthy v) m)"

text \<open>
  A keyword of a classifier rule: a plain substring, or a standalone token, which must
  appear as a whole word. \<open>standalone_from w p t\<close> looks for \<open>w\<close> in \<open>t\<close>,
  whose preceding character is \<open>p\<close>, neither preceded nor followed by a word character.
\<close>

datatype keyword = Substring string | Token string

fun standalone_from :: "string \<Rightarrow> char option \<Rightarrow> string \<Rightarrow> bool" where
  "standalone_from w p [] = False"
| "standalone_from w p (c # cs) =
     ((starts_with w (c # cs) \<and> \<not> at_word p \<and>
       \<not> at_word (next_char (drop (length w) (c # cs)))) \<or>
      standalone_from w (Some c) cs)"

fun keyword_in :: "string \<Rightarrow> keyword \<Rightarrow> bool" where
  "keyword_in t (Substring k) = contains k t"
| "keyword_in t (Token k) = standalone_from k None t"

text \<open>
  A rule is its keywords and its label; it fires when one of the keywords occurs. The
  rule tables of the two classifiers, in the stated order, and the result of a rule chain:
  the label of the first rule that fires, or the default.
\<close>

type_synonym rule = "keyword list \<times> string"

definition fires :: "rule \<Rightarrow> string \<Rightarrow> bool" where
  "fires r t = list_ex (keyword_in t) (fst r)"

fun first_match :: "rule list \<Rightarrow> string \<Rightarrow> string \<Rightarrow> string" where
  "first_match [] other t = other"
| "first_match (r # rs) other t = (if fires r t then snd r else first_match rs other t)"

definition role_rules :: "rule list" where
  "role_rules =
     [([Substring ''data engineer'', Substring ''etl'', Substring ''pipeline''],
       ''Data Engineering''),
      ([Substring ''data scientist'', Substring ''machine learning'', Token ''ml''],
       ''Data Science''),
      ([Substring ''business intelligence'', Substring ''power bi'', Substring ''tableau'',
        Token ''bi''], ''Business Intelligence''),
      ([Substring ''analyst'', Substring ''analytics''], ''Analytics'')]"

definition seniority_rules :: "rule list" where
  "seniority_rules =
     [([Substring ''intern'', Substring ''co-op'', Substring ''student''], ''Intern''),
      ([Substring ''director'', Substring ''head'', Substring ''vp'',
        Substring ''vice president'', Substring ''manager''], ''Management''),
      ([Substring ''principal'', Substring ''staff'', Substring ''lead'', Substring ''senior'',
        Substring ''sr.'', Substring ''sr ''], ''Senior''),
      ([Substring ''junior'', Substring ''jr.'', Substring ''entry'', Substring ''associate'',
        Substring ''new grad''], ''Entry'')]"

text \<open>
  Runs of whitespace collapsed to one space, and the texts in which every whitespace
  character is a single space that no whitespace follows.
\<close>

function squeeze :: "string \<Rightarrow> string" where
  "squeeze [] = []"
| "squeeze (c # cs) =
     (if is_space c then CHR '' '' # squeeze (dropWhile is_space cs) else c # squeeze cs)"
  by pat_completeness auto
termination
  by (relation "measure length") (auto simp add: length_dropWhile_le less_Suc_eq_le)

fun squeezed :: "string \<Rightarrow> bool" where
  "squeezed [] = True"
| "squeezed [c] = (is_space c \<longrightarrow> c = CHR '' '')"
| "squeezed (c # d # r) = ((is_space c \<longrightarrow> c = CHR '' '' \<and> \<not> is_space d) \<and> squeezed (d # r))"

text \<open>
  A captured group of one or two decimal digits; a pattern all of whose matches leave
  group 1 as it was; and a pattern all of whose matches set group 1 to such digits.
\<close>

definition digits12 :: "string option \<Rightarrow> bool" where
  "digits12 g = (case g of None \<Rightarrow> False | Some d \<Rightarrow> d \<noteq> [] \<and> length d \<le> 2 \<and> list_all is_digit d)"

definition keeps :: "rx \<Rightarrow> bool" where
  "keeps r = (\<forall>st. \<forall>m\<in>set (rx_match r st). snd (snd m) = snd (snd st))"

definition captures :: "rx \<Rightarrow> bool" where
  "captures r = (\<forall>st. \<forall>m\<in>set (rx_match r st). digits12 (snd (snd m)))"

text \<open>
  A piece of text spells an alias: character by character up to case, each space of the
  alias standing for one or more whitespace characters. An alias occurs in a text as a
  whole phrase when a piece of the text spells it and is neither preceded nor followed by
  a word character.
\<close>

inductive alias_spelt :: "string \<Rightarrow> string \<Rightarrow> bool" where
  spelt_Nil: "alias_spelt [] []"
| spelt_char: "c \<noteq> CHR '' '' \<Longrightarrow> lower_char d = lower_char c \<Longrightarrow> alias_spelt a m \<Longrightarrow>
     alias_spelt (c # a) (d # m)"
| spelt_space: "ws \<noteq> [] \<Longrightarrow> \<forall>x\<in>set ws. is_space x \<Longrightarrow> alias_spelt a m \<Longrightarrow>
     alias_spelt (CHR '' '' # a) (ws @ m)"

definition occurs_as_phrase :: "string \<Rightarrow> string \<Rightarrow> bool" where
  "occurs_as_phrase a t =
     (\<exists>pre mid post. t = pre @ mid @ post \<and> alias_spelt a mid \<and>
        (pre = [] \<or> \<not> is_word (last pre)) \<and> (post = [] \<or> \<not> is_word (hd post)))"


section \<open>The description cleaner\<close>

lemma is_tagE:
  assumes "is_tag t"
  shows "\<exists>body. t = CHR ''<'' # body @ [CHR ''>''] \<and> body \<noteq> [] \<and> CHR ''>'' \<notin> set body"
proof -
  obtain r where r: "t = CHR ''<'' # r" "r \<noteq> []" "last r = CHR ''>''" "butlast r \<noteq> []"
      "CHR ''>'' \<notin> set (butlast r)"
    using assms unfolding is_tag_def by (cases t) auto
  have "r = butlast r @ [CHR ''>'']" using r(2,3) append_butlast_last_id by metis
  then show ?thesis using r by blast
qed

lemma rev_upt_Suc: "lo \<le> m \<Longrightarrow> rev [lo..<Suc m] = m # rev [lo..<m]"
  by simp

lemma tag_match:
  assumes "body \<noteq> []" "CHR ''>'' \<notin> set body"
  shows "\<exists>ms. rx_match tag_rx (p, CHR ''<'' # body @ CHR ''>'' # rest, g) =
           (Some (CHR ''>''), rest, g) # ms"
proof -
  let ?s = "body @ CHR ''>'' # rest"
  have tw: "takeWhile (\<lambda>c. c \<noteq> CHR ''>'') ?s = body"
    using assms(2) by (induction body) auto
  have len: "1 \<le> length body" using assms(1) by (cases body) auto
  show ?thesis
    using len
    by (simp add: tag_rx_def seqs_def lit_def tw advance_def Let_def rev_upt_Suc del: upt_Suc)
qed

lemma tag_none: "rx_match tag_rx (p, [], g) = []"
  by (simp add: tag_rx_def seqs_def lit_def)

lemma sub_tag_step:
  assumes "body \<noteq> []" "CHR ''>'' \<notin> set body"
  shows "sub_from tag_rx r p (CHR ''<'' # body @ CHR ''>'' # rest) =
           r @ sub_from tag_rx r (Some (CHR ''>'')) rest"
proof -
  obtain ms where m: "rx_match tag_rx (p, CHR ''<'' # body @ CHR ''>'' # rest, None) =
      (Some (CHR ''>''), rest, None) # ms"
    using tag_match[OF assms] by blast
  show ?thesis by (simp add: m Let_def nth_append)
qed

lemma sub_tags:
  "\<forall>t\<in>set tags. is_tag t \<Longrightarrow>
     sub_from tag_rx '' '' p (concat tags) = replicate (length tags) (CHR '' '')"
proof (induction tags arbitrary: p)
  case Nil
  then show ?case by (simp add: tag_none)
next
  case (Cons t tags)
  then obtain body where b: "t = CHR ''<'' # body @ [CHR ''>'']" "body \<noteq> []"
      "CHR ''>'' \<notin> set body"
    using is_tagE by (metis list.set_intros(1))
  have "sub_from tag_rx '' '' p (concat (t # tags)) =
          '' '' @ sub_from tag_rx '' '' (Some (CHR ''>'')) (concat tags)"
    using sub_tag_step[OF b(2,3), of "'' ''" p "concat tags"] by (simp add: b(1))
  then show ?case using Cons by simp
qed

lemma ws_run_all:
  assumes "n > 0"
  shows "sub_from ws_run '' '' p (replicate n (CHR '' '')) = '' ''"
proof -
  obtain k where n: "n = Suc k" using assms by (cases n) auto
  have sp: "is_space (CHR '' '')" by (simp add: is_space_def)
  have tw: "takeWhile is_space (replicate k (CHR '' '')) = replicate k (CHR '' '')"
    by (simp add: sp)
  show ?thesis
    by (simp add: n ws_run_def sp tw advance_def Let_def rev_upt_Suc del: upt_Suc)
qed

lemma strip_space: "strip '' '' = []"
  by (simp add: strip_def is_space_def)

lemma clean_text_markup:
  assumes "tags \<noteq> []" "\<forall>t\<in>set tags. is_tag t"
  shows "clean_text (Some (concat tags)) = Some []"
proof -
  obtain t ts where tt: "tags = t # ts" using assms(1) by (cases tags) auto
  have "is_tag t" using assms(2) tt by simp
  then have ne: "concat tags \<noteq> []" using tt by (auto simp: is_tag_def split: list.splits)
  have "re_sub tag_rx '' '' (concat tags) = replicate (length tags) (CHR '' '')"
    unfolding re_sub_def by (rule sub_tags[OF assms(2)])
  moreover have "re_sub ws_run '' '' (replicate (length tags) (CHR '' '')) = '' ''"
    unfolding re_sub_def using ws_run_all[of "length tags"] assms(1) by simp
  ultimately show ?thesis using ne by (simp add: clean_text_def strip_space)
qed

text \<open>
  C10. The description cleaner returns null for the empty string exactly as for null,
  while a non-empty input that consists only of angle-bracket markup (one or more tags,
  nothing between them) returns the empty string, not null.
\<close>

theorem clean_text_null_empty_markup:
  "clean_text None = None \<and> clean_text (Some []) = None \<and>
   (\<forall>tags. tags \<noteq> [] \<and> (\<forall>t\<in>set tags. is_tag t) \<longrightarrow>
      clean_text (Some (concat tags)) = Some [] \<and> clean_text (Some (concat tags)) \<noteq> None)"
  using clean_text_markup by (simp add: clean_text_def)

theorem clean_text_null_empty_markup_witness:
  "is_tag ''<p>'' \<and> is_tag ''<br/>'' \<and> clean_text (Some ''<p><br/>'') = Some []"
proof -
  have t: "is_tag ''<p>''" "is_tag ''<br/>''" by (simp_all add: is_tag_def)
  have "[''<p>'', ''<br/>''] \<noteq> [] \<and> (\<forall>t\<in>set [''<p>'', ''<br/>'']. is_tag t)"
    using t by simp
  then have "clean_text (Some (concat [''<p>'', ''<br/>''])) = Some []"
    using clean_text_null_empty_markup by blast
  then show ?thesis using t by simp
qed

section \<open>The location parser\<close>

lemma split_by_nonempty: "split_by P s \<noteq> []"
  by (induction s) (auto split: list.splits)

lemma split_by_no_sep_all: "\<forall>w\<in>set (split_by P s). \<forall>c\<in>set w. \<not> P c"
  by (induction s) (auto split: list.splits)

lemma split_by_no_sep: "w \<in> set (split_by P s) \<Longrightarrow> c \<in> set w \<Longrightarrow> \<not> P c"
  using split_by_no_sep_all by blast

lemma split_ws_token: "w \<in> set (split_ws s) \<Longrightarrow> w \<noteq> [] \<and> (\<forall>c\<in>set w. \<not> is_space c)"
  unfolding split_ws_def using split_by_no_sep by auto

lemma split_by_has_word:
  "\<exists>c\<in>set s. \<not> P c \<Longrightarrow> \<exists>w\<in>set (split_by P s). w \<noteq> []"
  by (induction s) (auto split: list.splits simp: split_by_nonempty)

lemma split_ws_nonempty: "\<exists>c\<in>set s. \<not> is_space c \<Longrightarrow> split_ws s \<noteq> []"
  unfolding split_ws_def using split_by_has_word[of s is_space]
  by (auto simp: filter_empty_conv)

lemma strip_id: "s \<noteq> [] \<Longrightarrow> \<not> is_space (hd s) \<Longrightarrow> \<not> is_space (last s) \<Longrightarrow> strip s = s"
proof -
  assume a: "s \<noteq> []" "\<not> is_space (hd s)" "\<not> is_space (last s)"
  have 1: "dropWhile is_space s = s" using a(1,2) by (cases s) auto
  have "rev s = last s # rev (butlast s)" using a(1) by (metis append_butlast_last_id rev_eq_Cons_iff rev_rev_ident)
  moreover have "dropWhile is_space (last s # rev (butlast s)) = last s # rev (butlast s)"
    using a(3) by simp
  ultimately have 2: "dropWhile is_space (rev s) = rev s" by (simp only:)
  show ?thesis by (simp add: strip_def 1 2)
qed

lemma strip_subset: "set (strip s) \<subseteq> set s"
proof -
  have "set (strip s) \<subseteq> set (rev (dropWhile is_space s))"
    unfolding strip_def by (metis set_dropWhileD set_rev subsetI)
  then show ?thesis by (metis set_dropWhileD set_rev subsetD subsetI)
qed

lemma strip_hd: "strip s \<noteq> [] \<Longrightarrow> \<not> is_space (hd (strip s)) \<and> \<not> is_space (last (strip s))"
proof -
  assume a: "strip s \<noteq> []"
  let ?d = "dropWhile is_space s"
  let ?e = "dropWhile is_space (rev ?d)"
  have e: "?e \<noteq> []" using a by (simp add: strip_def)
  then have he: "\<not> is_space (hd ?e)" by (simp add: hd_dropWhile)
  have l: "last (strip s) = hd ?e" using e by (simp add: strip_def last_rev)
  have d: "?d \<noteq> []" using e by (metis dropWhile.simps(1) rev.simps(1))
  then have hd_d: "\<not> is_space (hd ?d)" by (simp add: hd_dropWhile)
  have "rev ?d = takeWhile is_space (rev ?d) @ ?e" by simp
  then have "?d = rev ?e @ rev (takeWhile is_space (rev ?d))"
    by (metis rev_append rev_rev_ident)
  then have "hd ?d = hd (rev ?e)" using e by (metis hd_append2 rev_is_Nil_conv)
  then show ?thesis using he l hd_d by (simp add: strip_def)
qed

lemma strip_has_nonspace: "strip s \<noteq> [] \<Longrightarrow> \<exists>c\<in>set (strip s). \<not> is_space c"
  using strip_hd[of s] by (metis hd_in_set)

lemma strip_all_space: "\<forall>c\<in>set s. is_space c \<Longrightarrow> strip s = []"
proof -
  assume "\<forall>c\<in>set s. is_space c"
  then have dw: "dropWhile is_space s = []" using dropWhile_eq_Nil_conv by blast
  show ?thesis unfolding strip_def dw by simp
qed

lemma strip_token: "w \<noteq> [] \<Longrightarrow> \<forall>c\<in>set w. \<not> is_space c \<Longrightarrow> strip w = w"
  by (rule strip_id) auto

lemma join_hd: "ws \<noteq> [] \<Longrightarrow> hd ws \<noteq> [] \<Longrightarrow> join sep ws \<noteq> [] \<and> hd (join sep ws) = hd (hd ws)"
  by (induction sep ws rule: join.induct) auto

lemma join_nonempty: "ws \<noteq> [] \<Longrightarrow> last ws \<noteq> [] \<Longrightarrow> join sep ws \<noteq> []"
  by (induction sep ws rule: join.induct) auto

lemma join_last: "ws \<noteq> [] \<Longrightarrow> last ws \<noteq> [] \<Longrightarrow> last (join sep ws) = last (last ws)"
proof (induction sep ws rule: join.induct)
  case (3 sep w v va)
  have ne: "join sep (v # va) \<noteq> []" using join_nonempty[of "v # va" sep] 3(3) by simp
  have "last (join sep (v # va)) = last (last (v # va))" using 3 by simp
  then show ?case using ne by simp
qed auto

lemma strip_join:
  assumes "ws \<noteq> []" "\<forall>w\<in>set ws. w \<noteq> [] \<and> (\<forall>c\<in>set w. \<not> is_space c)"
  shows "strip (join sep ws) = join sep ws \<and> join sep ws \<noteq> []"
proof -
  have h: "hd ws \<in> set ws" "last ws \<in> set ws" using assms(1) by auto
  then have hn: "hd ws \<noteq> []" "last ws \<noteq> []" using assms(2) by auto
  have 1: "join sep ws \<noteq> []" "hd (join sep ws) = hd (hd ws)" using join_hd[OF assms(1) hn(1)] by auto
  have 2: "last (join sep ws) = last (last ws)" using join_last[OF assms(1) hn(2)] .
  have "\<not> is_space (hd (hd ws))" "\<not> is_space (last (last ws))"
    using h hn assms(2) by (metis hd_in_set, metis last_in_set)
  then show ?thesis using strip_id[OF 1(1)] 1 2 by simp
qed

lemma abbr_lookup: "k \<in> set STATE_ABBRS \<Longrightarrow> \<exists>v. map_of US_STATES k = Some v \<and> v \<in> set STATE_NAMES"
proof -
  assume "k \<in> set STATE_ABBRS"
  then have "k \<in> fst ` set US_STATES" by (simp add: STATE_ABBRS_def)
  then obtain v where v: "map_of US_STATES k = Some v"
    by (metis map_of_eq_None_iff not_None_eq)
  then have "(k, v) \<in> set US_STATES" by (rule map_of_SomeD)
  then have "v \<in> set STATE_NAMES" unfolding STATE_NAMES_def by force
  then show ?thesis using v by blast
qed

lemma names_nonempty: "[] \<notin> set STATE_NAMES"
  by (simp add: STATE_NAMES_def US_STATES_def)

lemma names_50: "length STATE_NAMES = 50 \<and> distinct STATE_NAMES"
  by (simp add: STATE_NAMES_def US_STATES_def)

lemma resolve_state_name: "resolve_state w = Some s \<Longrightarrow> s \<in> set STATE_NAMES"
  using abbr_lookup[of w] by (auto simp: resolve_state_def split: if_splits)


lemma split_by_subset: "\<forall>w\<in>set (split_by P s). set w \<subseteq> set s"
  by (induction s) (auto split: list.splits)

lemma parts_elem:
  assumes "p \<in> set (location_parts w)"
  shows "p \<noteq> [] \<and> (\<exists>c\<in>set p. \<not> is_space c) \<and> (\<exists>c\<in>set (strip w). \<not> is_space c)"
proof -
  have "p \<in> strip ` {q \<in> set (split_on (CHR '','') (strip w)). strip q \<noteq> []}"
    using assms unfolding location_parts_def by simp
  then obtain q where q: "q \<in> set (split_on (CHR '','') (strip w))" "strip q \<noteq> []" "p = strip q"
    by blast
  obtain c where c: "c \<in> set p" "\<not> is_space c"
    using strip_has_nonspace[OF q(2)] q(3) by blast
  have "c \<in> set q" using c(1) q(3) strip_subset[of q] by (rule_tac subsetD) simp_all
  moreover have "set q \<subseteq> set (strip w)"
    using q(1) split_by_subset[of "\<lambda>c. c = CHR '',''" "strip w"]
    unfolding split_on_def by (rule_tac bspec)
  ultimately have "c \<in> set (strip w)" by (rule_tac subsetD)
  then show ?thesis using c q(2,3) by (intro conjI bexI[of _ c]) simp_all
qed

lemma first_token_ok:
  assumes "\<exists>c\<in>set m. \<not> is_space c"
  shows "\<exists>tok ts. split_ws m = tok # ts \<and> first_token m = Inr tok"
proof -
  obtain tok ts where t: "split_ws m = tok # ts"
    using split_ws_nonempty[OF assms] by (cases "split_ws m") auto
  then have "tok \<in> set (split_ws m)" by simp
  then have "tok \<noteq> [] \<and> (\<forall>c\<in>set tok. \<not> is_space c)" by (rule split_ws_token)
  then have "strip tok = tok" by (simp add: strip_token)
  then show ?thesis using t by (simp add: first_token_def)
qed

lemma abbr_state:
  assumes "k \<in> set STATE_ABBRS"
  shows "\<exists>v. state_of_abbr k = Inr v \<and> map_of US_STATES k = Some v \<and> resolve_state k = Some v"
proof -
  obtain v where m: "map_of US_STATES k = Some v" using abbr_lookup[OF assms] by blast
  have 1: "state_of_abbr k = Inr v" unfolding state_of_abbr_def m by simp
  have 2: "resolve_state k = Some v" unfolding resolve_state_def using assms m by simp
  show ?thesis using 1 2 m by blast
qed

lemma name_state: "k \<notin> set STATE_ABBRS \<Longrightarrow> k \<in> set STATE_NAMES \<Longrightarrow> resolve_state k = Some k"
  by (simp add: resolve_state_def)

lemma no_state: "k \<notin> set STATE_ABBRS \<Longrightarrow> k \<notin> set STATE_NAMES \<Longrightarrow> resolve_state k = None"
  by (simp add: resolve_state_def)

lemma parse_two_parts:
  assumes "w \<noteq> []" "2 \<le> length (location_parts w)"
  shows "parse_city_state (Some w) =
           Inr (Some (location_parts w ! 0), state_from_part (location_parts w ! 1))"
proof -
  let ?parts = "location_parts w"
  let ?m = "?parts ! 1"
  let ?c = "Some (?parts ! 0)"
  have "?m \<in> set ?parts" by (rule nth_mem) (use assms(2) in linarith)
  then have "\<exists>c\<in>set ?m. \<not> is_space c" using parts_elem by blast
  then obtain tok ts where t: "split_ws ?m = tok # ts" "first_token ?m = Inr tok"
    using first_token_ok by blast
  have wf: "(w = []) = False" using assms(1) by simp
  have c2: "(2 \<le> length ?parts) = True" using assms(2) by simp
  have u: "parse_city_state (Some w) =
    (if ?m \<in> set STATE_ABBRS then
       (case state_of_abbr ?m of Inl e \<Rightarrow> Inl e | Inr st \<Rightarrow> Inr (?c, Some st))
     else if ?m \<in> set STATE_NAMES then Inr (?c, Some ?m)
     else
       (case first_token ?m of
          Inl e \<Rightarrow> Inl e
        | Inr token \<Rightarrow>
            if token \<in> set STATE_ABBRS then
              (case state_of_abbr token of Inl e \<Rightarrow> Inl e | Inr st \<Rightarrow> Inr (?c, Some st))
            else if token \<in> set STATE_NAMES then Inr (?c, Some token)
            else Inr (?c, None)))"
    unfolding parse_city_state_def Let_def
    unfolding location_parts_def[symmetric]
    by (simp only: option.case wf if_False c2 if_True)
  show ?thesis
  proof (cases "?m \<in> set STATE_ABBRS")
    case True
    then obtain v where "state_of_abbr ?m = Inr v" "resolve_state ?m = Some v"
      using abbr_state by blast
    then show ?thesis using True by (simp add: u state_from_part_def)
  next
    case False
    note mf = False
    show ?thesis
    proof (cases "?m \<in> set STATE_NAMES")
      case True
      then show ?thesis using mf name_state[OF mf True] by (simp add: u state_from_part_def)
    next
      case False
      note nf = False
      have r: "resolve_state ?m = None" using no_state[OF mf nf] .
      show ?thesis
      proof (cases "tok \<in> set STATE_ABBRS")
        case True
        then obtain v where "state_of_abbr tok = Inr v" "resolve_state tok = Some v"
          using abbr_state by blast
        then show ?thesis using True mf nf r t by (simp add: u state_from_part_def)
      next
        case False
        then show ?thesis
          using mf nf r t name_state[OF False] no_state[OF False]
          by (cases "tok \<in> set STATE_NAMES") (simp_all add: u state_from_part_def)
      qed
    qed
  qed
qed

lemma parse_fewer_parts:
  assumes "w \<noteq> []" "length (location_parts w) < 2" "split_ws (strip w) \<noteq> []"
  shows "parse_city_state (Some w) = Inr (one_part_result (strip w))"
proof -
  let ?tokens = "split_ws (strip w)"
  let ?l = "last ?tokens"
  let ?j = "join '' '' (butlast ?tokens)"
  have wf: "(w = []) = False" using assms(1) by simp
  have c2: "(2 \<le> length (location_parts w)) = False" using assms(2) by simp
  have c3: "(?tokens \<noteq> []) = True" using assms(3) by simp
  have u: "parse_city_state (Some w) =
    (if strip ?l \<in> set STATE_ABBRS then
       (case state_of_abbr (strip ?l) of
          Inl e \<Rightarrow> Inl e
        | Inr st \<Rightarrow> Inr (if strip ?j = [] then None else Some (strip ?j), Some st))
     else Inr (Some (strip w), None))"
    unfolding parse_city_state_def Let_def
    unfolding location_parts_def[symmetric]
    by (simp only: option.case wf if_False c2 c3 if_True)
  have tok: "\<forall>t\<in>set ?tokens. t \<noteq> [] \<and> (\<forall>c\<in>set t. \<not> is_space c)"
    using split_ws_token by blast
  have "?l \<in> set ?tokens" using assms(3) by simp
  then have "?l \<noteq> [] \<and> (\<forall>c\<in>set ?l. \<not> is_space c)" using tok by (rule_tac bspec)
  then have l: "strip ?l = ?l" by (simp add: strip_token)
  have sj: "strip ?j = ?j \<and> (?j = [] \<longleftrightarrow> butlast ?tokens = [])"
  proof (cases "butlast ?tokens = []")
    case True
    then show ?thesis by (simp add: strip_def)
  next
    case False
    have "\<forall>t\<in>set (butlast ?tokens). t \<noteq> [] \<and> (\<forall>c\<in>set t. \<not> is_space c)"
      using tok by (meson in_set_butlastD)
    then show ?thesis using strip_join[OF False] False by blast
  qed
  show ?thesis
  proof (cases "?l \<in> set STATE_ABBRS")
    case True
    then obtain v where "state_of_abbr ?l = Inr v" "map_of US_STATES ?l = Some v"
      using abbr_state by blast
    then show ?thesis using True sj by (simp add: u l one_part_result_def Let_def)
  next
    case False
    then show ?thesis by (simp add: u l one_part_result_def Let_def)
  qed
qed

lemma one_part_tokens:
  assumes "length (location_parts w) = 1"
  shows "w \<noteq> [] \<and> split_ws (strip w) \<noteq> []"
proof -
  obtain p where "p \<in> set (location_parts w)" using assms by (cases "location_parts w") auto
  then have c: "\<exists>c\<in>set (strip w). \<not> is_space c" using parts_elem by blast
  then have "split_ws (strip w) \<noteq> []" using split_ws_nonempty by blast
  moreover have "w \<noteq> []" using c by (auto simp: strip_def)
  ultimately show ?thesis by simp
qed

lemma parse_one_part:
  assumes "length (location_parts w) = 1"
  shows "parse_city_state (Some w) = Inr (one_part_result (strip w))"
  using parse_fewer_parts[of w] one_part_tokens[OF assms] assms by simp

lemma parse_no_tokens:
  assumes "split_ws (strip w) = []"
  shows "parse_city_state (Some w) = Inr (None, None)"
proof (cases "w = []")
  case True
  then show ?thesis by (simp add: parse_city_state_def)
next
  case False
  have "location_parts w = []"
  proof (rule ccontr)
    assume "location_parts w \<noteq> []"
    then obtain p where "p \<in> set (location_parts w)" by (cases "location_parts w") auto
    then have "\<exists>c\<in>set (strip w). \<not> is_space c" using parts_elem by blast
    then show False using split_ws_nonempty assms by blast
  qed
  then have c2: "(2 \<le> length (location_parts w)) = False" by simp
  have wf: "(w = []) = False" using False by simp
  have c3: "(split_ws (strip w) \<noteq> []) = False" using assms by simp
  show ?thesis
    unfolding parse_city_state_def Let_def
    unfolding location_parts_def[symmetric]
    by (simp only: option.case wf if_False c2 c3)
qed

lemma state_from_part_name: "state_from_part m = Some s \<Longrightarrow> s \<in> set STATE_NAMES"
  unfolding state_from_part_def using resolve_state_name
  by (auto split: option.splits list.splits)

lemma parse_invariant:
  "\<exists>city state. parse_city_state raw = Inr (city, state) \<and> city \<noteq> Some [] \<and>
     (\<forall>s. state = Some s \<longrightarrow> s \<in> set STATE_NAMES)"
proof (cases raw)
  case None
  then show ?thesis by (simp add: parse_city_state_def)
next
  case (Some w)
  show ?thesis
  proof (cases "w = []")
    case True
    then show ?thesis using Some by (simp add: parse_city_state_def)
  next
    case False
    consider (two) "2 \<le> length (location_parts w)"
      | (few) "length (location_parts w) < 2" "split_ws (strip w) \<noteq> []"
      | (none) "split_ws (strip w) = []" by linarith
    then show ?thesis
    proof cases
      case two
      have "location_parts w ! 0 \<in> set (location_parts w)"
        by (rule nth_mem) (use two in linarith)
      then have "location_parts w ! 0 \<noteq> []" using parts_elem by blast
      then show ?thesis using parse_two_parts[OF False two] Some state_from_part_name by auto
    next
      case few
      let ?tokens = "split_ws (strip w)"
      have loc: "strip w \<noteq> []" using few(2) by (auto simp: split_ws_def)
      have j: "butlast ?tokens \<noteq> [] \<Longrightarrow> join '' '' (butlast ?tokens) \<noteq> []"
      proof -
        assume ne: "butlast ?tokens \<noteq> []"
        have "\<forall>t\<in>set (butlast ?tokens). t \<noteq> [] \<and> (\<forall>c\<in>set t. \<not> is_space c)"
          using split_ws_token by (meson in_set_butlastD)
        then show ?thesis using strip_join[OF ne] by blast
      qed
      have "last ?tokens \<in> set STATE_ABBRS \<Longrightarrow>
          \<exists>v. map_of US_STATES (last ?tokens) = Some v \<and> v \<in> set STATE_NAMES"
        using abbr_lookup by blast
      then show ?thesis
        using parse_fewer_parts[OF False few] Some loc j
        by (auto simp: one_part_result_def Let_def)
    next
      case none
      then show ?thesis using parse_no_tokens Some by simp
    qed
  qed
qed

lemma parse_blank:
  assumes "\<forall>c\<in>set w. is_space c"
  shows "parse_city_state (Some w) = Inr (None, None)"
proof -
  have "strip w = []" using strip_all_space[OF assms] .
  then have "split_ws (strip w) = []" by (simp add: split_ws_def)
  then show ?thesis by (rule parse_no_tokens)
qed


lemma location_parts_Nil: "location_parts [] = []"
  by (simp add: location_parts_def strip_def split_on_def)

lemma parse_two_parts':
  assumes "2 \<le> length (location_parts w)"
  shows "parse_city_state (Some w) =
           Inr (Some (location_parts w ! 0), state_from_part (location_parts w ! 1))"
proof -
  have "w \<noteq> []" using assms location_parts_Nil by auto
  then show ?thesis using assms by (rule parse_two_parts)
qed

lemma parse_state_nonempty:
  assumes "parse_city_state raw = Inr (city, state)"
  shows "city \<noteq> Some [] \<and> state \<noteq> Some [] \<and> (\<forall>s. state = Some s \<longrightarrow> s \<in> set STATE_NAMES)"
proof -
  obtain c' s' where r: "parse_city_state raw = Inr (c', s')" "c' \<noteq> Some []"
      "\<forall>s. s' = Some s \<longrightarrow> s \<in> set STATE_NAMES"
    using parse_invariant[of raw] by blast
  have e: "c' = city" "s' = state" using r(1) assms by simp_all
  have "state \<noteq> Some []" using r(3) e(2) names_nonempty by auto
  then show ?thesis using r(2,3) e by simp
qed

lemma fallback_rule:
  assumes "parse_city_state loc = Inr (city, state)"
  shows "clean_location loc q =
           Inr (city, if state = None \<and> truthy_str q then q else state)"
proof -
  have "state \<noteq> Some []" using parse_state_nonempty[OF assms] by simp
  then have "truthy_str state \<longleftrightarrow> state \<noteq> None"
    by (cases state) (simp_all add: truthy_str_def)
  then show ?thesis using assms by (simp add: clean_location_def state_with_fallback_def)
qed

lemma ex_dallas: "parse_city_state (Some ''Dallas, Texas'') = Inr (Some ''Dallas'', Some ''Texas'')"
  by code_simp

lemma ex_new_york: "parse_city_state (Some ''New York, NY'') = Inr (Some ''New York'', Some ''New York'')"
  by code_simp

lemma ex_austin_tx: "parse_city_state (Some ''Austin TX'') = Inr (Some ''Austin'', Some ''Texas'')"
  by code_simp

lemma ex_austin_fallback:
  "clean_location (Some ''Austin'') (Some ''Texas'') = Inr (Some ''Austin'', Some ''Texas'')"
  by code_simp

lemma ex_remote:
  "clean_location (Some ''Remote, USA'') None = Inr (Some ''Remote'', None)"
  by code_simp

text \<open>
  C2. Location parsing. With two or more comma-separated parts the first part is the city
  and the second part, or failing that its first whitespace token, resolves the state.
  With one part a trailing recognised two-letter abbreviation resolves the state and the
  city is everything before it; otherwise the whole string is the city with no state.
  When the parser determines no state and the caller supplied a fallback, the state is
  the fallback. The five concrete cases of the specification hold.
\<close>

theorem parse_city_state_rules:
  "(\<forall>w. 2 \<le> length (location_parts w) \<longrightarrow>
      parse_city_state (Some w) =
        Inr (Some (location_parts w ! 0), state_from_part (location_parts w ! 1))) \<and>
   (\<forall>w. length (location_parts w) = 1 \<longrightarrow>
      parse_city_state (Some w) = Inr (one_part_result (strip w))) \<and>
   (\<forall>loc q city state. parse_city_state loc = Inr (city, state) \<longrightarrow>
      clean_location loc q = Inr (city, if state = None \<and> truthy_str q then q else state)) \<and>
   parse_city_state (Some ''Dallas, Texas'') = Inr (Some ''Dallas'', Some ''Texas'') \<and>
   parse_city_state (Some ''New York, NY'') = Inr (Some ''New York'', Some ''New York'') \<and>
   parse_city_state (Some ''Austin TX'') = Inr (Some ''Austin'', Some ''Texas'') \<and>
   clean_location (Some ''Austin'') (Some ''Texas'') = Inr (Some ''Austin'', Some ''Texas'') \<and>
   clean_location (Some ''Remote, USA'') None = Inr (Some ''Remote'', None)"
  using parse_two_parts' parse_one_part fallback_rule
    ex_dallas ex_new_york ex_austin_tx ex_austin_fallback ex_remote
  by (intro conjI allI impI) assumption+

theorem parse_city_state_rules_witness:
  "2 \<le> length (location_parts ''Albany, NY, USA'') \<and>
   parse_city_state (Some ''Albany, NY, USA'') = Inr (Some ''Albany'', Some ''New York'') \<and>
   length (location_parts ''Salt Lake City UT'') = 1 \<and>
   parse_city_state (Some ''Salt Lake City UT'') = Inr (Some ''Salt Lake City'', Some ''Utah'') \<and>
   parse_city_state (Some ''Austin'') = Inr (Some ''Austin'', None) \<and>
   clean_location (Some ''Austin'') (Some ''Texas'') = Inr (Some ''Austin'', Some ''Texas'')"
proof -
  have h1: "2 \<le> length (location_parts ''Albany, NY, USA'')" by code_simp
  have h2: "length (location_parts ''Salt Lake City UT'') = 1" by code_simp
  have h3: "parse_city_state (Some ''Austin'') = Inr (Some ''Austin'', None)" by code_simp
  have v1: "Inr (Some (location_parts ''Albany, NY, USA'' ! 0),
                 state_from_part (location_parts ''Albany, NY, USA'' ! 1)) =
            (Inr (Some ''Albany'', Some ''New York'') :: py_error + string option \<times> string option)"
    by code_simp
  have v2: "one_part_result (strip ''Salt Lake City UT'') = (Some ''Salt Lake City'', Some ''Utah'')"
    by code_simp
  have t: "truthy_str (Some ''Texas'')" by (simp add: truthy_str_def)
  have r1: "parse_city_state (Some ''Albany, NY, USA'') = Inr (Some ''Albany'', Some ''New York'')"
    using parse_city_state_rules h1 v1 by simp
  have r2: "parse_city_state (Some ''Salt Lake City UT'') =
      Inr (Some ''Salt Lake City'', Some ''Utah'')"
    using parse_city_state_rules h2 v2 by simp
  have r3: "clean_location (Some ''Austin'') (Some ''Texas'') = Inr (Some ''Austin'', Some ''Texas'')"
    using parse_city_state_rules h3 t by simp
  show ?thesis using h1 h2 h3 r1 r2 r3 by simp
qed

text \<open>
  C9. The location parser never fails, and each component of its result is null or a
  non-empty string; null and whitespace-only input give (null, null); a state returned by
  the parser is one of the 50 full state names.
\<close>

theorem parse_city_state_invariant:
  "(\<exists>city state. parse_city_state raw = Inr (city, state) \<and> city \<noteq> Some [] \<and>
      state \<noteq> Some [] \<and> (\<forall>s. state = Some s \<longrightarrow> s \<in> set STATE_NAMES)) \<and>
   parse_city_state None = Inr (None, None) \<and>
   (\<forall>w. (\<forall>c\<in>set w. is_space c) \<longrightarrow> parse_city_state (Some w) = Inr (None, None)) \<and>
   length STATE_NAMES = 50 \<and> distinct STATE_NAMES"
proof -
  obtain c s where r: "parse_city_state raw = Inr (c, s)"
    using parse_invariant[of raw] by blast
  have 1: "\<exists>city state. parse_city_state raw = Inr (city, state) \<and> city \<noteq> Some [] \<and>
      state \<noteq> Some [] \<and> (\<forall>s. state = Some s \<longrightarrow> s \<in> set STATE_NAMES)"
    using r parse_state_nonempty[OF r] by blast
  have 2: "parse_city_state None = Inr (None, None)" by (simp add: parse_city_state_def)
  show ?thesis using 1 2 parse_blank names_50 by (intro conjI allI impI) simp_all
qed

theorem parse_city_state_invariant_witness:
  "is_space (CHR '' '') \<and> is_space (CHR 0x09) \<and>
   parse_city_state (Some [CHR '' '', CHR 0x09, CHR '' '']) = Inr (None, None) \<and>
   parse_city_state (Some ''Austin TX'') = Inr (Some ''Austin'', Some ''Texas'') \<and>
   ''Texas'' \<in> set STATE_NAMES"
proof -
  have h: "\<forall>c\<in>set [CHR '' '', CHR 0x09, CHR '' '']. is_space c" by (simp add: is_space_def)
  have e: "parse_city_state (Some ''Austin TX'') = Inr (Some ''Austin'', Some ''Texas'')"
    by code_simp
  have b: "parse_city_state (Some [CHR '' '', CHR 0x09, CHR '' '']) = Inr (None, None)"
    using parse_city_state_invariant[of "Some ''Austin TX''"] h by blast
  have "''Texas'' \<in> set STATE_NAMES"
    using parse_city_state_invariant[of "Some ''Austin TX''"] e by auto
  moreover have "is_space (CHR '' '')" "is_space (CHR 0x09)" by (simp_all add: is_space_def)
  ultimately show ?thesis using e b by simp
qed


section \<open>The skill configuration\<close>

lemma compiled_names:
  "compile_entries m = Inr cs \<Longrightarrow> map fst cs = canonical_names m"
proof (induction m arbitrary: cs)
  case Nil
  then show ?case by (simp add: canonical_names_def)
next
  case (Cons kv m)
  obtain k v where kv: "kv = (k, v)" by (cases kv)
  show ?case
  proof (cases "truthy v")
    case False
    then show ?thesis using Cons kv by (simp add: canonical_names_def)
  next
    case True
    then show ?thesis using Cons kv
      by (auto simp add: Let_def canonical_names_def split: sum.splits)
  qed
qed

text \<open>
  The guard rejects an entry that is not a mapping and an empty mapping, and the compile
  loop skips a canonical skill whose alias entry is empty.
\<close>

lemma skills_guard:
  "(\<forall>m. cfg = CMap m \<longrightarrow> m = []) \<Longrightarrow>
     skills_map cfg = Inl ConfigError \<and> compiled cfg = Inl ConfigError"
  by (cases cfg) (simp_all add: compiled_def)

lemma empty_aliases_skipped:
  "\<not> truthy a \<Longrightarrow> compile_entries ((k, a) # rest) = compile_entries rest"
  by simp

text \<open>
  C6. The configuration \<open>{"sql": "sql"}\<close> maps a string to a string, not to a
  list, so loading it should raise the configuration error. The guard tests only that the
  skills entry is a non-empty mapping and lets it pass; the compile loop then iterates the
  string character by character and builds the matcher of the aliases \<open>s\<close>,
  \<open>q\<close> and \<open>l\<close>. The skill is reported for \<open>"s q l"\<close> and missed in
  \<open>"sql developer"\<close>.
\<close>

theorem skills_config_not_type_checked:
  "\<not> string_to_list_mapping (CMap [(SStr ''sql'', YScalar (SStr ''sql''))]) \<and>
   skills_map (CMap [(SStr ''sql'', YScalar (SStr ''sql''))]) =
     Inr [(SStr ''sql'', YScalar (SStr ''sql''))] \<and>
   load_and_extract (CMap [(SStr ''sql'', YScalar (SStr ''sql''))]) (Some ''s q l'') =
     Inr ([''sql''], [''sql'']) \<and>
   load_and_extract (CMap [(SStr ''sql'', YScalar (SStr ''sql''))]) (Some ''sql developer'') =
     Inr ([], [])"
  by code_simp


section \<open>The skill extractor\<close>

text \<open>
  C7. The skill \<open>ghost\<close> has the single alias \<open>" "\<close>, which is empty after
  trimming. Its alias entry is not empty, so the compile loop does not skip it; the
  alternation of no aliases is the empty pattern, which matches wherever the position is
  not between two word characters. The skill is reported for the empty text and for a
  text that never mentions it.
\<close>

theorem extract_skills_blank_alias:
  "load_and_extract (CMap [(SStr ''ghost'', YList [SStr '' ''])]) (Some []) =
     Inr ([''ghost''], [''ghost'']) \<and>
   load_and_extract (CMap [(SStr ''ghost'', YList [SStr '' ''])]) (Some ''C++ developer'') =
     Inr ([''ghost''], [''ghost''])"
  by code_simp

text \<open>
  C8, as the claim states it, fails: the keys \<open>SQL\<close> and \<open>sql\<close> are two
  entries of one dictionary and both normalise to \<open>sql\<close>, so the skills list holds
  \<open>sql\<close> twice.
\<close>

theorem extract_skills_duplicate:
  "load_and_extract
     (CMap [(SStr ''SQL'', YList [SStr ''sql'']), (SStr ''sql'', YList [SStr ''sql''])])
     (Some ''sql'') = Inr ([''sql'', ''sql''], [''sql'', ''sql'']) \<and>
   \<not> distinct [''sql'', ''sql'']"
  by code_simp

text \<open>
  C8, amended. The compiled names are the canonical names of the dictionary in definition
  order. For every text the skills list is a subsequence of them (dictionary order, not
  text order); it is duplicate-free when the canonical names are pairwise distinct;
  \<open>top_skills\<close> is its first 10 entries, a prefix of length at most 10;
  \<open>skills_count\<close> is its length and \<open>has_explicit_skills\<close> holds iff
  \<open>skills_count > 0\<close>.
\<close>

theorem extract_skills_order:
  "(compiled (CMap m) = Inr cs \<longrightarrow> map fst cs = canonical_names m) \<and>
   subseq (fst (extract_skills cs t)) (map fst cs) \<and>
   (distinct (map fst cs) \<longrightarrow> distinct (fst (extract_skills cs t))) \<and>
   snd (extract_skills cs t) = take 10 (fst (extract_skills cs t)) \<and>
   prefix (snd (extract_skills cs t)) (fst (extract_skills cs t)) \<and>
   length (snd (extract_skills cs t)) \<le> 10 \<and>
   skills (feature_row cs r) = fst (extract_skills cs (Some (blob_of r))) \<and>
   top_skills (feature_row cs r) = take 10 (skills (feature_row cs r)) \<and>
   skills_count (feature_row cs r) = length (skills (feature_row cs r)) \<and>
   (has_explicit_skills (feature_row cs r) \<longleftrightarrow> 0 < skills_count (feature_row cs r))"
proof -
  have 1: "compiled (CMap m) = Inr cs \<longrightarrow> map fst cs = canonical_names m"
    using compiled_names[of m cs] by (cases "m = []") (simp_all add: compiled_def)
  have 2: "subseq (fst (extract_skills cs t)) (map fst cs)"
    by (simp add: extract_skills_def Let_def subseq_map)
  have 3: "distinct (map fst cs) \<longrightarrow> distinct (fst (extract_skills cs t))"
    by (simp add: extract_skills_def Let_def distinct_map_filter)
  have 4: "snd (extract_skills cs t) = take 10 (fst (extract_skills cs t))"
    by (simp add: extract_skills_def Let_def)
  have 5: "prefix (snd (extract_skills cs t)) (fst (extract_skills cs t))"
    unfolding 4 by (rule take_is_prefix)
  have 6: "length (snd (extract_skills cs t)) \<le> 10"
    unfolding 4 by simp
  have 7: "skills (feature_row cs r) = fst (extract_skills cs (Some (blob_of r)))"
    by (simp add: feature_row_def Let_def)
  have 8: "top_skills (feature_row cs r) = take 10 (skills (feature_row cs r))"
    by (simp add: feature_row_def Let_def extract_skills_def)
  have 9: "skills_count (feature_row cs r) = length (skills (feature_row cs r))"
    by (simp add: feature_row_def Let_def)
  have 10: "has_explicit_skills (feature_row cs r) \<longleftrightarrow> 0 < skills_count (feature_row cs r)"
    by (simp add: feature_row_def Let_def)
  show ?thesis using 1 2 3 4 5 6 7 8 9 10 by (intro conjI) assumption+
qed

theorem extract_skills_order_witness:
  "(\<exists>cs. compiled (CMap [(SStr ''SQL'', YList [SStr ''sql'']),
                           (SStr ''Python'', YList [SStr ''python'', SStr ''py''])]) = Inr cs \<and>
         map fst cs = [''sql'', ''python'']) \<and>
   distinct (map fst [(''sql'', skill_rx [''sql'']), (''python'', skill_rx [''python'', ''py''])]) \<and>
   distinct (fst (extract_skills
     [(''sql'', skill_rx [''sql'']), (''python'', skill_rx [''python'', ''py''])]
     (Some ''Python and SQL'')))"
proof -
  let ?m = "[(SStr ''SQL'', YList [SStr ''sql'']),
             (SStr ''Python'', YList [SStr ''python'', SStr ''py''])]"
  let ?cs = "[(''sql'', skill_rx [''sql'']), (''python'', skill_rx [''python'', ''py''])]"
  have "\<not> isl (compiled (CMap ?m))" by code_simp
  then obtain cs where cs: "compiled (CMap ?m) = Inr cs"
    by (cases "compiled (CMap ?m)") simp_all
  have n: "canonical_names ?m = [''sql'', ''python'']" by code_simp
  have "map fst cs = canonical_names ?m"
    by (rule extract_skills_order[of ?m cs, THEN conjunct1, THEN mp, OF cs])
  then have a: "map fst cs = [''sql'', ''python'']"
    by (simp only: n)
  have d: "distinct (map fst ?cs)" by simp
  have b: "distinct (fst (extract_skills ?cs (Some ''Python and SQL'')))"
    by (rule extract_skills_order[of ?m ?cs "Some ''Python and SQL''",
          THEN conjunct2, THEN conjunct2, THEN conjunct1, THEN mp, OF d])
  have e: "\<exists>cs. compiled (CMap ?m) = Inr cs \<and> map fst cs = [''sql'', ''python'']"
    using cs a by (intro exI[of _ cs] conjI)
  show ?thesis using e d b by (intro conjI)
qed


section \<open>The classifiers\<close>

lemma rx_match_lit:
  "rx_match (lit c) (p, s, g) =
     (case s of [] \<Rightarrow> [] | d # ds \<Rightarrow> if d = c then [(Some d, ds, g)] else [])"
  by (simp add: lit_def)

lemma rx_match_seqs_Nil: "rx_match (seqs []) st = [st]"
  by (simp add: seqs_def)

lemma rx_match_seqs_Cons:
  "rx_match (seqs (r # rs)) st = concat (map (rx_match (seqs rs)) (rx_match r st))"
  by (simp add: seqs_def)

lemma rx_match_lits:
  "rx_match (lits w) (p, s, g) =
     (if starts_with w s then [(if w = [] then p else Some (last w), drop (length w) s, g)]
      else [])"
proof (induction w arbitrary: p s)
  case Nil
  then show ?case by (simp add: lits_def rx_match_seqs_Nil)
next
  case (Cons c w p s)
  have u: "\<And>s. rx_match (lits (c # w)) (p, s, g) =
      concat (map (rx_match (lits w)) (rx_match (lit c) (p, s, g)))"
    by (simp add: lits_def rx_match_seqs_Cons)
  show ?case
  proof (cases s)
    case Nil
    then show ?thesis by (simp add: u rx_match_lit)
  next
    case (Cons d ds)
    show ?thesis
    proof (cases "d = c")
      case True
      then show ?thesis using Cons Cons.IH[of "Some c" ds] by (simp add: u rx_match_lit)
    next
      case False
      then show ?thesis using Cons by (auto simp add: u rx_match_lit)
    qed
  qed
qed

lemma starts_with_next:
  "starts_with w s \<Longrightarrow> w \<noteq> [] \<Longrightarrow> next_char s = Some (hd w)"
  by (cases w; cases s) (simp_all add: next_char_def)

lemma rx_match_WordB:
  "rx_match WordB (p, s, g) = (if at_word p \<noteq> at_word (next_char s) then [(p, s, g)] else [])"
  by simp

lemma rx_match_token:
  assumes w: "w \<noteq> []" "is_word (hd w)" "is_word (last w)"
  shows "rx_match (token_rx w) (p, s, g) \<noteq> [] \<longleftrightarrow>
     starts_with w s \<and> \<not> at_word p \<and> \<not> at_word (next_char (drop (length w) s))"
proof (cases "starts_with w s")
  case False
  then show ?thesis
    by (simp add: token_rx_def rx_match_seqs_Cons rx_match_seqs_Nil rx_match_lits
        del: rx_match.simps)
      (simp add: rx_match_lits)
next
  case True
  have n: "at_word (next_char s)" using starts_with_next[OF True w(1)] w(2) by (simp add: at_word_def)
  have l: "at_word (Some (last w))" using w(3) by (simp add: at_word_def)
  show ?thesis using True n l w(1)
    by (simp add: token_rx_def rx_match_seqs_Cons rx_match_seqs_Nil rx_match_lits)
qed

lemma search_token:
  assumes w: "w \<noteq> []" "is_word (hd w)" "is_word (last w)"
  shows "search_from (token_rx w) p s \<noteq> None \<longleftrightarrow> standalone_from w p s"
proof (induction s arbitrary: p)
  case Nil
  have "rx_match (token_rx w) (p, [], None) = []"
    using rx_match_token[OF w, of p "[]" None] w(1) by (cases w) simp_all
  then show ?case by simp
next
  case (Cons c cs)
  show ?case
  proof (cases "rx_match (token_rx w) (p, c # cs, None)")
    case Nil
    then have "\<not> (starts_with w (c # cs) \<and> \<not> at_word p \<and>
        \<not> at_word (next_char (drop (length w) (c # cs))))"
      using rx_match_token[OF w, of p "c # cs" None] by simp
    then show ?thesis using Nil Cons.IH[of "Some c"] by auto
  next
    case (Cons m ms)
    then have "starts_with w (c # cs) \<and> \<not> at_word p \<and>
        \<not> at_word (next_char (drop (length w) (c # cs)))"
      using rx_match_token[OF w, of p "c # cs" None] by simp
    then show ?thesis using Cons by auto
  qed
qed

lemma re_search_ml: "re_search (token_rx ''ml'') t = standalone_from ''ml'' None t"
  using search_token[of "''ml''" None t] by (simp add: re_search_def is_word_def)

lemma re_search_bi: "re_search (token_rx ''bi'') t = standalone_from ''bi'' None t"
  using search_token[of "''bi''" None t] by (simp add: re_search_def is_word_def)

lemma classify_first_match:
  "classify_role_family ttl = first_match role_rules ''Other'' (lower (or_empty ttl))"
  by (simp add: classify_role_family_def Let_def role_rules_def fires_def re_search_ml re_search_bi
      del: contains.simps standalone_from.simps)

lemma seniority_first_match:
  "infer_seniority ttl = first_match seniority_rules ''Mid'' (lower (or_empty ttl))"
  by (simp add: infer_seniority_def Let_def seniority_rules_def fires_def any_in_def
      del: contains.simps)

lemma first_match_index:
  "i < length rs \<Longrightarrow> fires (rs ! i) t \<Longrightarrow> (\<forall>j<i. \<not> fires (rs ! j) t) \<Longrightarrow>
     first_match rs other t = snd (rs ! i)"
proof (induction rs arbitrary: i)
  case Nil
  then show ?case by simp
next
  case (Cons r rs)
  show ?case
  proof (cases i)
    case 0
    then show ?thesis using Cons.prems by simp
  next
    case (Suc k)
    have "\<not> fires r t" using Cons.prems(3) Suc by (metis nth_Cons_0 zero_less_Suc)
    moreover have "\<forall>j<k. \<not> fires (rs ! j) t"
    proof (intro allI impI)
      fix j assume "j < k"
      then have "Suc j < i" using Suc by simp
      then have "\<not> fires ((r # rs) ! Suc j) t" using Cons.prems(3) by blast
      then show "\<not> fires (rs ! j) t" by simp
    qed
    moreover have "k < length rs" "fires (rs ! k) t" using Cons.prems Suc by simp_all
    ultimately show ?thesis using Cons.IH[of k] Suc by simp
  qed
qed

lemma first_match_none:
  "(\<forall>i<length rs. \<not> fires (rs ! i) t) \<Longrightarrow> first_match rs other t = other"
proof (induction rs)
  case Nil
  then show ?case by simp
next
  case (Cons r rs)
  have "\<not> fires r t" using Cons.prems by (metis length_Cons nth_Cons_0 zero_less_Suc)
  moreover have "\<forall>i<length rs. \<not> fires (rs ! i) t"
  proof (intro allI impI)
    fix i assume "i < length rs"
    then have "\<not> fires ((r # rs) ! Suc i) t" using Cons.prems by (metis Suc_less_eq length_Cons)
    then show "\<not> fires (rs ! i) t" by simp
  qed
  ultimately show ?case using Cons.IH by simp
qed

lemma starts_with_iff: "starts_with sub t \<longleftrightarrow> (\<exists>post. t = sub @ post)"
  by (induction sub t rule: starts_with.induct) auto

lemma contains_iff: "contains sub t \<longleftrightarrow> (\<exists>pre post. t = pre @ sub @ post)"
proof (induction t)
  case Nil
  then show ?case by simp
next
  case (Cons c cs)
  show ?case
  proof
    assume "contains sub (c # cs)"
    then consider "starts_with sub (c # cs)" | "contains sub cs" by auto
    then show "\<exists>pre post. c # cs = pre @ sub @ post"
    proof cases
      case 1
      then obtain post where "c # cs = sub @ post" using starts_with_iff by blast
      then have "c # cs = [] @ sub @ post" by simp
      then show ?thesis by blast
    next
      case 2
      then obtain pre post where "cs = pre @ sub @ post" using Cons.IH by blast
      then have "c # cs = (c # pre) @ sub @ post" by simp
      then show ?thesis by blast
    qed
  next
    assume "\<exists>pre post. c # cs = pre @ sub @ post"
    then obtain pre post where e: "c # cs = pre @ sub @ post" by blast
    show "contains sub (c # cs)"
    proof (cases pre)
      case Nil
      then have "starts_with sub (c # cs)" using e starts_with_iff[of sub "c # cs"] by auto
      then show ?thesis by simp
    next
      case (Cons d ds)
      then have "cs = ds @ sub @ post" using e by simp
      then have "contains sub cs" using Cons.IH by blast
      then show ?thesis by simp
    qed
  qed
qed

lemma ex_c4:
  "infer_seniority (Some ''Senior Data Engineer Intern'') = ''Intern''"
  "classify_role_family (Some ''Senior Data Engineer Intern'') = ''Data Engineering''"
  "classify_role_family (Some ''ML Engineer'') = ''Data Science''"
  "classify_role_family (Some ''HTML Developer'') = ''Other''"
  "classify_role_family None = ''Other''"
  "infer_seniority None = ''Mid''"
  by code_simp+


text \<open>
  C4. Both classifiers evaluate their rules in the stated order on the lower-cased title:
  the result is the label of the first rule that fires, and \<open>Other\<close> (role family)
  or \<open>Mid\<close> (seniority) when no rule fires. The title
  \<open>Senior Data Engineer Intern\<close> is classified Intern and Data Engineering.
\<close>

theorem classifiers_first_match:
  "(\<forall>i<length role_rules.
      fires (role_rules ! i) (lower (or_empty ttl)) \<and>
      (\<forall>j<i. \<not> fires (role_rules ! j) (lower (or_empty ttl))) \<longrightarrow>
      classify_role_family ttl = snd (role_rules ! i)) \<and>
   ((\<forall>i<length role_rules. \<not> fires (role_rules ! i) (lower (or_empty ttl))) \<longrightarrow>
      classify_role_family ttl = ''Other'') \<and>
   (\<forall>i<length seniority_rules.
      fires (seniority_rules ! i) (lower (or_empty ttl)) \<and>
      (\<forall>j<i. \<not> fires (seniority_rules ! j) (lower (or_empty ttl))) \<longrightarrow>
      infer_seniority ttl = snd (seniority_rules ! i)) \<and>
   ((\<forall>i<length seniority_rules. \<not> fires (seniority_rules ! i) (lower (or_empty ttl))) \<longrightarrow>
      infer_seniority ttl = ''Mid'') \<and>
   infer_seniority (Some ''Senior Data Engineer Intern'') = ''Intern'' \<and>
   classify_role_family (Some ''Senior Data Engineer Intern'') = ''Data Engineering''"
proof -
  let ?t = "lower (or_empty ttl)"
  have 1: "\<forall>i<length role_rules. fires (role_rules ! i) ?t \<and>
      (\<forall>j<i. \<not> fires (role_rules ! j) ?t) \<longrightarrow>
      classify_role_family ttl = snd (role_rules ! i)"
    using first_match_index[of _ role_rules ?t "''Other''"]
    by (simp only: classify_first_match) blast
  have 2: "(\<forall>i<length role_rules. \<not> fires (role_rules ! i) ?t) \<longrightarrow>
      classify_role_family ttl = ''Other''"
    using first_match_none[of role_rules ?t "''Other''"]
    by (simp only: classify_first_match) blast
  have 3: "\<forall>i<length seniority_rules. fires (seniority_rules ! i) ?t \<and>
      (\<forall>j<i. \<not> fires (seniority_rules ! j) ?t) \<longrightarrow>
      infer_seniority ttl = snd (seniority_rules ! i)"
    using first_match_index[of _ seniority_rules ?t "''Mid''"]
    by (simp only: seniority_first_match) blast
  have 4: "(\<forall>i<length seniority_rules. \<not> fires (seniority_rules ! i) ?t) \<longrightarrow>
      infer_seniority ttl = ''Mid''"
    using first_match_none[of seniority_rules ?t "''Mid''"]
    by (simp only: seniority_first_match) blast
  show ?thesis using 1 2 3 4 ex_c4(1) ex_c4(2) by (intro conjI) assumption+
qed

theorem classifiers_first_match_witness:
  "classify_role_family (Some ''ML Engineer'') = ''Data Science'' \<and>
   classify_role_family (Some ''HTML Developer'') = ''Other'' \<and>
   infer_seniority (Some ''Lead Data Analyst'') = ''Senior'' \<and>
   infer_seniority (Some ''Data Analyst'') = ''Mid''"
proof -
  have r1: "1 < length role_rules" by (simp add: role_rules_def)
  have r2: "fires (role_rules ! 1) (lower (or_empty (Some ''ML Engineer'')))" by code_simp
  have "\<not> fires (role_rules ! 0) (lower (or_empty (Some ''ML Engineer'')))" by code_simp
  then have r3: "\<forall>j<1. \<not> fires (role_rules ! j) (lower (or_empty (Some ''ML Engineer'')))"
    by simp
  have "classify_role_family (Some ''ML Engineer'') = snd (role_rules ! 1)"
    using classifiers_first_match[of "Some ''ML Engineer''", THEN conjunct1, rule_format, of 1]
      r1 r2 r3 by blast
  then have a: "classify_role_family (Some ''ML Engineer'') = ''Data Science''"
    by (simp add: role_rules_def)
  have "list_all (\<lambda>r. \<not> fires r (lower (or_empty (Some ''HTML Developer'')))) role_rules"
    by code_simp
  then have n: "\<forall>i<length role_rules.
      \<not> fires (role_rules ! i) (lower (or_empty (Some ''HTML Developer'')))"
    by (simp only: list_all_length)
  have b: "classify_role_family (Some ''HTML Developer'') = ''Other''"
    using classifiers_first_match[of "Some ''HTML Developer''", THEN conjunct2, THEN conjunct1]
      n by (rule mp)
  have s1: "2 < length seniority_rules" by (simp add: seniority_rules_def)
  have s2: "fires (seniority_rules ! 2) (lower (or_empty (Some ''Lead Data Analyst'')))"
    by code_simp
  have "list_all (\<lambda>r. \<not> fires r (lower (or_empty (Some ''Lead Data Analyst''))))
      (take 2 seniority_rules)" by code_simp
  then have s3: "\<forall>j<2. \<not> fires (seniority_rules ! j) (lower (or_empty (Some ''Lead Data Analyst'')))"
    using s1 by (simp add: list_all_length)
  have "infer_seniority (Some ''Lead Data Analyst'') = snd (seniority_rules ! 2)"
    using classifiers_first_match[of "Some ''Lead Data Analyst''",
        THEN conjunct2, THEN conjunct2, THEN conjunct1, rule_format, of 2]
      s1 s2 s3 by blast
  then have c: "infer_seniority (Some ''Lead Data Analyst'') = ''Senior''"
    by (simp add: seniority_rules_def)
  have "list_all (\<lambda>r. \<not> fires r (lower (or_empty (Some ''Data Analyst'')))) seniority_rules"
    by code_simp
  then have m: "\<forall>i<length seniority_rules.
      \<not> fires (seniority_rules ! i) (lower (or_empty (Some ''Data Analyst'')))"
    by (simp only: list_all_length)
  have d: "infer_seniority (Some ''Data Analyst'') = ''Mid''"
    using classifiers_first_match[of "Some ''Data Analyst''",
        THEN conjunct2, THEN conjunct2, THEN conjunct2, THEN conjunct1]
      m by (rule mp)
  show ?thesis using a b c d by (intro conjI)
qed


section \<open>The text normaliser\<close>

lemma sub_atom:
  "sub_from (Atom P) repl p t = concat (map (\<lambda>c. if P c then repl else [c]) t)"
  by (induction t arbitrary: p) simp_all

lemma re_sub_atom_space:
  "re_sub (Atom P) '' '' t = map (\<lambda>c. if P c then CHR '' '' else c) t"
proof -
  have "concat (map (\<lambda>c. if P c then '' '' else [c]) t) = map (\<lambda>c. if P c then CHR '' '' else c) t"
    by (induction t) simp_all
  then show ?thesis by (simp add: re_sub_def sub_atom)
qed

lemma ws_run_head:
  assumes "is_space c"
  shows "\<exists>ms. rx_match ws_run (p, c # cs, None) =
     (Some ((c # cs) ! length (takeWhile is_space cs)), dropWhile is_space cs, None) # ms"
proof -
  let ?n = "length (takeWhile is_space cs)"
  have n: "length (takeWhile is_space (c # cs)) = Suc ?n" using assms by simp
  have r: "rev [1..<Suc (Suc ?n)] = Suc ?n # rev [1..<Suc ?n]" by simp
  have d: "drop ?n cs = dropWhile is_space cs" by (simp add: dropWhile_eq_drop)
  show ?thesis
    unfolding ws_run_def rx_match.simps prod.case n Let_def option.case r list.map
    by (simp add: advance_def d)
qed

lemma ws_run_none: "\<not> is_space c \<Longrightarrow> rx_match ws_run (p, c # cs, None) = []"
  by (simp add: ws_run_def)

lemma ws_run_Nil: "rx_match ws_run (p, [], None) = []"
  by (simp add: ws_run_def)

lemma sub_ws_run: "sub_from ws_run '' '' p t = squeeze t"
proof (induction t arbitrary: p rule: squeeze.induct)
  case 1
  then show ?case by (simp add: ws_run_Nil)
next
  case (2 c cs)
  show ?case
  proof (cases "is_space c")
    case False
    then show ?thesis using 2(2)[OF False, of "Some c"] by (simp add: ws_run_none)
  next
    case True
    let ?n = "length (takeWhile is_space cs)"
    obtain ms where m: "rx_match ws_run (p, c # cs, None) =
        (Some ((c # cs) ! ?n), dropWhile is_space cs, None) # ms"
      using ws_run_head[OF True] by blast
    have le: "\<not> length (dropWhile is_space cs) > length cs"
      by (simp add: length_dropWhile_le not_less)
    have "?n \<le> length cs" by (rule length_takeWhile_le)
    then have k: "length cs - length (dropWhile is_space cs) = ?n"
      by (simp add: dropWhile_eq_drop)
    have d: "drop ?n cs = dropWhile is_space cs" by (simp add: dropWhile_eq_drop)
    have "sub_from ws_run '' '' p (c # cs) =
        '' '' @ sub_from ws_run '' '' (Some ((c # cs) ! ?n)) (dropWhile is_space cs)"
      unfolding sub_from.simps m list.case prod.case Let_def k d using le by simp
    then show ?thesis using 2(1)[OF True, of "Some ((c # cs) ! ?n)"] True by simp
  qed
qed

lemma squeezed_tl: "squeezed (c # r) \<Longrightarrow> squeezed r"
  by (cases r) simp_all

lemma squeezed_drop: "squeezed y \<Longrightarrow> squeezed (drop n y)"
proof (induction n arbitrary: y)
  case 0
  then show ?case by simp
next
  case (Suc n)
  then show ?case by (cases y) (auto dest: squeezed_tl)
qed

lemma squeezed_take: "squeezed y \<Longrightarrow> squeezed (take n y)"
proof (induction y arbitrary: n rule: squeezed.induct)
  case 1
  then show ?case by simp
next
  case (2 c)
  then show ?case by (cases n) simp_all
next
  case (3 c d r)
  show ?case
  proof (cases n)
    case 0
    then show ?thesis by simp
  next
    case (Suc k)
    have t: "squeezed (take k (d # r))" using 3 by simp
    show ?thesis
    proof (cases k)
      case 0
      then show ?thesis using Suc 3(2) by simp
    next
      case (Suc j)
      then show ?thesis using \<open>n = Suc k\<close> t 3(2) by simp
    qed
  qed
qed

lemma strip_take_drop: "\<exists>m n. strip y = take m (drop n y)"
proof -
  let ?d = "dropWhile is_space y"
  have 1: "?d = drop (length (takeWhile is_space y)) y" by (simp add: dropWhile_eq_drop)
  have "rev (dropWhile is_space (rev ?d)) =
      rev (drop (length (takeWhile is_space (rev ?d))) (rev ?d))"
    by (simp add: dropWhile_eq_drop)
  also have "\<dots> = take (length ?d - length (takeWhile is_space (rev ?d))) ?d"
    by (simp add: rev_drop)
  finally have "strip y = take (length ?d - length (takeWhile is_space (rev ?d))) ?d"
    by (simp add: strip_def)
  then show ?thesis using 1 by metis
qed

lemma squeezed_strip: "squeezed y \<Longrightarrow> squeezed (strip y)"
  using strip_take_drop[of y] squeezed_take squeezed_drop by metis

lemma squeezed_squeeze: "squeezed (squeeze t)"
proof (induction t rule: squeeze.induct)
  case 1
  then show ?case by simp
next
  case (2 c cs)
  show ?case
  proof (cases "is_space c")
    case True
    let ?r = "dropWhile is_space cs"
    have ih: "squeezed (squeeze ?r)" using 2(1)[OF True] .
    show ?thesis
    proof (cases ?r)
      case Nil
      have "squeeze (c # cs) = [CHR '' '']"
        using True Nil by (simp del: dropWhile_eq_Nil_conv)
      then show ?thesis by simp
    next
      case (Cons d ds)
      then have nd: "\<not> is_space d" by (metis dropWhile_eq_Cons_conv)
      then show ?thesis using True Cons ih by simp
    qed
  next
    case False
    have ih: "squeezed (squeeze cs)" using 2(2)[OF False] .
    show ?thesis
    proof (cases cs)
      case Nil
      then show ?thesis using False by simp
    next
      case (Cons d ds)
      then show ?thesis using False ih by (cases "is_space d") simp_all
    qed
  qed
qed

lemma squeeze_squeezed: "squeezed y \<Longrightarrow> squeeze y = y"
proof (induction y rule: squeezed.induct)
  case 1
  then show ?case by simp
next
  case (2 c)
  then show ?case by simp
next
  case (3 c d r)
  then show ?case by (cases "is_space c") auto
qed


lemma set_squeeze: "set (squeeze t) \<subseteq> insert (CHR '' '') (set t)"
proof (induction t rule: squeeze.induct)
  case 1
  then show ?case by simp
next
  case (2 c cs)
  show ?case
  proof (cases "is_space c")
    case True
    have "set (dropWhile is_space cs) \<subseteq> set cs" by (meson set_dropWhileD subsetI)
    then show ?thesis using 2(1)[OF True] True by auto
  next
    case False
    then show ?thesis using 2(2)[OF False] by auto
  qed
qed

lemma strip_strip: "strip (strip s) = strip s"
proof (cases "strip s = []")
  case True
  show ?thesis unfolding True by (simp add: strip_def)
next
  case False
  then show ?thesis using strip_hd[OF False] by (intro strip_id) simp_all
qed

lemma lower_char_idem: "lower_char (lower_char c) = lower_char c"
  by (simp add: lower_char_def Let_def)

lemma space_plain:
  "lower_char (CHR '' '') = CHR '' ''" "\<not> is_separator (CHR '' '')" "\<not> is_other (CHR '' '')"
  by (simp_all add: lower_char_def is_separator_def is_other_def is_space_def)

lemma replaced_plain:
  assumes "c3 = (if is_other c2 then CHR '' '' else c2)"
    "c2 = (if is_separator c1 then CHR '' '' else c1)" "c1 = lower_char c0"
  shows "lower_char c3 = c3 \<and> \<not> is_separator c3 \<and> \<not> is_other c3"
  using assms space_plain lower_char_idem[of c0] by (auto split: if_splits)

lemma normalize_text_unfold:
  "s0 \<noteq> [] \<Longrightarrow> normalize_text (Some s0) =
     strip (squeeze (map (\<lambda>c. if is_other c then CHR '' '' else c)
       (map (\<lambda>c. if is_separator c then CHR '' '' else c) (map lower_char s0))))"
  by (simp add: normalize_text_def Let_def lower_def re_sub_atom_space del: map_map)
    (simp add: re_sub_def sub_ws_run del: map_map)

lemma normalize_text_plain:
  "\<forall>c\<in>set (normalize_text x). lower_char c = c \<and> \<not> is_separator c \<and> \<not> is_other c"
proof (cases x)
  case None
  then show ?thesis by (simp add: normalize_text_def)
next
  case (Some s0)
  show ?thesis
  proof (cases "s0 = []")
    case True
    then show ?thesis using Some by (simp add: normalize_text_def)
  next
    case False
    let ?s3 = "map (\<lambda>c. if is_other c then CHR '' '' else c)
       (map (\<lambda>c. if is_separator c then CHR '' '' else c) (map lower_char s0))"
    have p3: "\<forall>c\<in>set ?s3. lower_char c = c \<and> \<not> is_separator c \<and> \<not> is_other c"
    proof
      fix c assume "c \<in> set ?s3"
      then have "c \<in> (\<lambda>c0. if is_other (if is_separator (lower_char c0) then CHR '' '' else lower_char c0)
          then CHR '' '' else (if is_separator (lower_char c0) then CHR '' '' else lower_char c0)) ` set s0"
        by (simp only: set_map image_image)
      then obtain c0 where "c = (if is_other (if is_separator (lower_char c0) then CHR '' '' else lower_char c0)
          then CHR '' '' else (if is_separator (lower_char c0) then CHR '' '' else lower_char c0))"
        by blast
      then show "lower_char c = c \<and> \<not> is_separator c \<and> \<not> is_other c"
        using replaced_plain[of c _ "lower_char c0" c0] by blast
    qed
    have "set (normalize_text x) \<subseteq> insert (CHR '' '') (set ?s3)"
      unfolding Some normalize_text_unfold[OF False]
      using strip_subset[of "squeeze ?s3"] set_squeeze[of ?s3] by (rule subset_trans)
    then show ?thesis using p3 space_plain by blast
  qed
qed

lemma normalize_text_squeezed: "squeezed (normalize_text x) \<and> strip (normalize_text x) = normalize_text x"
proof (cases x)
  case None
  then show ?thesis by (simp add: normalize_text_def strip_def)
next
  case (Some s0)
  show ?thesis
  proof (cases "s0 = []")
    case True
    then show ?thesis using Some by (simp add: normalize_text_def strip_def)
  next
    case False
    show ?thesis unfolding Some normalize_text_unfold[OF False]
      by (simp add: squeezed_strip squeezed_squeeze strip_strip)
  qed
qed

text \<open>
  C5. Normalising a normalised text returns it unchanged, and null and empty input give
  the empty string.
\<close>

theorem normalize_text_idempotent:
  "normalize_text (Some (normalize_text x)) = normalize_text x \<and>
   normalize_text None = [] \<and> normalize_text (Some []) = []"
proof -
  let ?y = "normalize_text x"
  have "normalize_text (Some ?y) = ?y"
  proof (cases "?y = []")
    case True
    then show ?thesis by (simp add: normalize_text_def)
  next
    case False
    have p: "\<forall>c\<in>set ?y. lower_char c = c \<and> \<not> is_separator c \<and> \<not> is_other c"
      by (rule normalize_text_plain)
    have 1: "map lower_char ?y = ?y" using p by (simp add: map_idI)
    have 2: "map (\<lambda>c. if is_separator c then CHR '' '' else c) ?y = ?y"
      using p by (simp add: map_idI)
    have 3: "map (\<lambda>c. if is_other c then CHR '' '' else c) ?y = ?y"
      using p by (simp add: map_idI)
    have 4: "squeeze ?y = ?y" using normalize_text_squeezed[of x] squeeze_squeezed by blast
    have 5: "strip ?y = ?y" using normalize_text_squeezed[of x] by blast
    show ?thesis unfolding normalize_text_unfold[OF False] 1 2 3 4 5 ..
  qed
  then show ?thesis by (simp add: normalize_text_def)
qed

theorem normalize_text_idempotent_witness:
  "normalize_text (Some ''Power-BI, C++ / SQL_Server!!  5+ Years'') =
     ''power bi c++ sql server 5+ years'' \<and>
   normalize_text (Some ''power bi c++ sql server 5+ years'') =
     ''power bi c++ sql server 5+ years''"
proof -
  have a: "normalize_text (Some ''Power-BI, C++ / SQL_Server!!  5+ Years'') =
     ''power bi c++ sql server 5+ years''" by code_simp
  show ?thesis
    using normalize_text_idempotent[of "Some ''Power-BI, C++ / SQL_Server!!  5+ Years''"]
    unfolding a using a by simp
qed


section \<open>The years-of-experience extractor\<close>

lemma keeps_Eps: "keeps Eps"
  by (simp add: keeps_def)

lemma keeps_Atom: "keeps (Atom P)"
  by (auto simp add: keeps_def split: list.splits if_splits)

lemma keeps_Rep: "keeps (Rep P lo hi)"
  by (auto simp add: keeps_def advance_def Let_def)

lemma keeps_WordB: "keeps WordB"
  by (auto simp add: keeps_def split: if_splits)

lemma keeps_Or: "keeps a \<Longrightarrow> keeps b \<Longrightarrow> keeps (Or a b)"
proof -
  assume a: "keeps a" and b: "keeps b"
  show ?thesis unfolding keeps_def
  proof (intro allI ballI)
    fix st m assume "m \<in> set (rx_match (Or a b) st)"
    then have "m \<in> set (rx_match a st) \<or> m \<in> set (rx_match b st)" by simp
    then show "snd (snd m) = snd (snd st)" using a b unfolding keeps_def by blast
  qed
qed

lemma keeps_Seq: "keeps a \<Longrightarrow> keeps b \<Longrightarrow> keeps (Seq a b)"
proof -
  assume a: "keeps a" and b: "keeps b"
  show ?thesis unfolding keeps_def
  proof (intro allI ballI)
    fix st m assume "m \<in> set (rx_match (Seq a b) st)"
    then obtain k where k: "k \<in> set (rx_match a st)" "m \<in> set (rx_match b k)" by auto
    have "snd (snd m) = snd (snd k)" using b k(2) unfolding keeps_def by blast
    moreover have "snd (snd k) = snd (snd st)" using a k(1) unfolding keeps_def by blast
    ultimately show "snd (snd m) = snd (snd st)" by simp
  qed
qed

lemma keeps_seqs: "list_all keeps rs \<Longrightarrow> keeps (seqs rs)"
  by (induction rs) (simp_all add: seqs_def keeps_Eps keeps_Seq)

lemma keeps_lit: "keeps (lit c)"
  by (simp add: lit_def keeps_Atom)

lemma keeps_lits: "keeps (lits w)"
  unfolding lits_def by (rule keeps_seqs) (simp add: list_all_iff keeps_lit)

lemma keeps_unit: "keeps unit_rx"
  by (simp add: unit_rx_def keeps_Or keeps_lits)

lemma captures_num_grp: "captures num_grp"
  unfolding captures_def
proof (intro allI ballI)
  fix st :: mstate and m
  obtain p s g where st: "st = (p, s, g)" by (cases st)
  let ?n = "length (takeWhile is_digit s)"
  let ?F = "\<lambda>(p' :: char option, s' :: string, g' :: string option).
      (p', s', Some (take (length s - length s') s))"
  have e: "rx_match num_grp st = map ?F (map (advance st) (rev [1..<Suc (min 2 ?n)]))"
    by (simp add: num_grp_def st Let_def)
  assume "m \<in> set (rx_match num_grp st)"
  then have "m \<in> (\<lambda>k. ?F (advance st k)) ` set (rev [1..<Suc (min 2 ?n)])"
    unfolding e by (simp only: set_map image_image)
  then obtain k where kk: "k \<in> set (rev [1..<Suc (min 2 ?n)])" and mk: "m = ?F (advance st k)"
    by blast
  have k: "1 \<le> k" "k \<le> min 2 ?n" using kk by (auto simp del: upt_Suc)
  have m: "m = (if k = 0 then p else Some (s ! (k - 1)), drop k s,
                  Some (take (length s - length (drop k s)) s))"
    using mk by (simp add: advance_def st)
  have kn: "k \<le> ?n" "k \<le> 2" using k(2) by simp_all
  have kl: "k \<le> length s" using kn(1) length_takeWhile_le[of is_digit s] by linarith
  have t: "take (length s - length (drop k s)) s = take k s" using kl by simp
  have "take k s = take k (takeWhile is_digit s @ dropWhile is_digit s)" by simp
  also have "\<dots> = take k (takeWhile is_digit s)" using kn(1) by (simp del: takeWhile_dropWhile_id)
  finally have tk: "take k s = take k (takeWhile is_digit s)" .
  have d: "list_all is_digit (take k s)"
    unfolding list_all_iff
  proof (intro ballI)
    fix c assume "c \<in> set (take k s)"
    then have "c \<in> set (take k (takeWhile is_digit s))" by (simp only: tk)
    then have "c \<in> set (takeWhile is_digit s)" by (rule in_set_takeD)
    then show "is_digit c" by (rule set_takeWhileD[THEN conjunct2])
  qed
  have ne: "take k s \<noteq> []" using k(1) kl by (cases s) auto
  have le: "length (take k s) \<le> 2" using kn(2) by simp
  have g: "snd (snd m) = Some (take k s)" unfolding m snd_conv t ..
  show "digits12 (snd (snd m))" unfolding g digits12_def option.case using ne le d by (intro conjI)
qed

lemma captures_Seq1: "captures a \<Longrightarrow> keeps b \<Longrightarrow> captures (Seq a b)"
proof -
  assume a: "captures a" and b: "keeps b"
  show ?thesis unfolding captures_def
  proof (intro allI ballI)
    fix st m assume "m \<in> set (rx_match (Seq a b) st)"
    then obtain k where k: "k \<in> set (rx_match a st)" "m \<in> set (rx_match b k)" by auto
    have "snd (snd m) = snd (snd k)" using b k(2) unfolding keeps_def by blast
    moreover have "digits12 (snd (snd k))" using a k(1) unfolding captures_def by blast
    ultimately show "digits12 (snd (snd m))" by simp
  qed
qed

lemma captures_Seq2: "captures b \<Longrightarrow> captures (Seq a b)"
proof -
  assume b: "captures b"
  show ?thesis unfolding captures_def
  proof (intro allI ballI)
    fix st m assume "m \<in> set (rx_match (Seq a b) st)"
    then obtain k where k: "m \<in> set (rx_match b k)" by auto
    then show "digits12 (snd (snd m))" using b unfolding captures_def by blast
  qed
qed

lemma seqs_Cons: "seqs (r # rs) = Seq r (seqs rs)"
  by (simp add: seqs_def)

lemma captures_seqs1: "captures r \<Longrightarrow> list_all keeps rs \<Longrightarrow> captures (seqs (r # rs))"
  unfolding seqs_Cons by (rule captures_Seq1) (simp_all add: keeps_seqs)

lemma captures_seqs2: "captures (seqs rs) \<Longrightarrow> captures (seqs (r # rs))"
  unfolding seqs_Cons by (rule captures_Seq2)

lemma keeps_parts:
  "keeps ws0" "keeps ws_run" "keeps (lit c)" "keeps (lits w)" "keeps unit_rx" "keeps WordB"
  by (simp_all add: ws0_def ws_run_def keeps_Rep keeps_lit keeps_lits keeps_unit keeps_WordB)

lemma captures_patterns: "\<forall>p\<in>set patterns. captures p"
  unfolding patterns_def
  by (simp add: captures_seqs1 captures_seqs2 captures_num_grp keeps_parts)


lemma captures_head: "captures r \<Longrightarrow> rx_match r st = (a, s', g) # ms \<Longrightarrow> digits12 g"
proof -
  assume c: "captures r" and m: "rx_match r st = (a, s', g) # ms"
  have "(a, s', g) \<in> set (rx_match r st)" unfolding m by simp
  then have "digits12 (snd (snd (a, s', g)))" using c unfolding captures_def by blast
  then show ?thesis by simp
qed

lemma finditer_captures:
  assumes c: "captures r"
  shows "\<forall>g\<in>set (finditer_from r p s). digits12 g"
proof (induction "length s" arbitrary: p s rule: less_induct)
  case less
  show ?case
  proof (cases s)
    case Nil
    show ?thesis
    proof (cases "rx_match r (p, [], None)")
      case Nil
      then show ?thesis using \<open>s = []\<close> by simp
    next
      case (Cons m ms)
      obtain a s' g where m: "m = (a, s', g)" by (cases m)
      have "digits12 g" using captures_head[OF c] Cons m by blast
      then show ?thesis using \<open>s = []\<close> Cons m by simp
    qed
  next
    case (Cons d ds)
    show ?thesis
    proof (cases "rx_match r (p, d # ds, None)")
      case Nil
      have "\<forall>g\<in>set (finditer_from r (Some d) ds). digits12 g"
        by (rule less) (simp add: Cons)
      then show ?thesis using Cons Nil by simp
    next
      case (Cons m ms)
      obtain a s' g where m: "m = (a, s', g)" by (cases m)
      have g: "digits12 g" using captures_head[OF c] Cons m by blast
      let ?k = "length ds - length s'"
      have "\<forall>g\<in>set (finditer_from r (Some ((d # ds) ! ?k)) (drop ?k ds)). digits12 g"
        by (rule less) (simp add: \<open>s = d # ds\<close>)
      then show ?thesis using \<open>s = d # ds\<close> Cons m g by (simp add: Let_def)
    qed
  qed
qed

lemma finditer_empty_iff: "finditer_from r p s = [] \<longleftrightarrow> search_from r p s = None"
  by (induction s arbitrary: p) (simp_all add: Let_def split: list.splits prod.splits)

lemma digit_val_range: "is_digit c \<Longrightarrow> 0 \<le> digit_val c \<and> digit_val c \<le> 9"
  by (simp add: is_digit_def digit_val_def Let_def)

lemma digits12_int: "digits12 g \<Longrightarrow> \<exists>n. py_int g = Inr n \<and> 0 \<le> n \<and> n \<le> 99"
proof -
  assume a: "digits12 g"
  then obtain d where g: "g = Some d" and d: "d \<noteq> []" "length d \<le> 2" "list_all is_digit d"
    by (cases g) (simp_all add: digits12_def)
  obtain x r where xr: "d = x # r" using d(1) by (cases d) auto
  have x: "0 \<le> digit_val x \<and> digit_val x \<le> 9" using d(3) xr digit_val_range by simp
  show ?thesis
  proof (cases r)
    case Nil
    then show ?thesis using g xr d x by (simp add: py_int_def)
  next
    case (Cons y r')
    then have r': "r' = []" using d(2) xr by simp
    have y: "0 \<le> digit_val y \<and> digit_val y \<le> 9" using d(3) xr Cons digit_val_range by simp
    show ?thesis using g xr Cons r' d x y by (simp add: py_int_def)
  qed
qed

lemma collect_hits_eq:
  "collect_hits gs hits =
     hits @ concat (map (\<lambda>g. case py_int g of Inl e \<Rightarrow> [] | Inr n \<Rightarrow> [n]) gs)"
  by (induction gs arbitrary: hits) (simp_all split: sum.splits)

lemma collect_hits_skip:
  "isl (py_int g) \<Longrightarrow> collect_hits (gs @ g # gs') hits = collect_hits (gs @ gs') hits"
  by (cases "py_int g") (simp_all add: collect_hits_eq)

lemma collect_hits_keep:
  "py_int g = Inr n \<Longrightarrow>
     collect_hits (gs @ g # gs') hits = collect_hits gs hits @ n # collect_hits gs' []"
  by (simp add: collect_hits_eq)

lemma foldl_collect:
  "foldl (\<lambda>hits p. collect_hits (f p) hits) acc ps =
     acc @ concat (map (\<lambda>p. collect_hits (f p) []) ps)"
proof (induction ps arbitrary: acc)
  case Nil
  then show ?case by simp
next
  case (Cons p ps)
  have "collect_hits (f p) acc = acc @ collect_hits (f p) []"
    using collect_hits_eq[of "f p" acc] collect_hits_eq[of "f p" "[]"] by simp
  then show ?case using Cons[of "acc @ collect_hits (f p) []"] by simp
qed

lemma all_hits_eq: "all_hits t = concat (map (\<lambda>p. collect_hits (finditer p t) []) patterns)"
  unfolding all_hits_def foldl_collect by simp

lemma set_collect: "set (collect_hits gs []) = {n. \<exists>g\<in>set gs. py_int g = Inr n}"
  unfolding collect_hits_eq by (auto split: sum.splits)

lemma all_hits_set:
  "set (all_hits t) = {n. \<exists>p\<in>set patterns. \<exists>g\<in>set (finditer p t). py_int g = Inr n}"
  unfolding all_hits_eq by (auto simp add: set_collect)

lemma pattern_group:
  assumes "p \<in> set patterns" "g \<in> set (finditer p t)"
  shows "\<exists>n. py_int g = Inr n \<and> 0 \<le> n \<and> n \<le> 99"
proof -
  have "captures p" using captures_patterns assms(1) by blast
  then have "digits12 g" using finditer_captures[of p None t] assms(2) unfolding finditer_def by blast
  then show ?thesis by (rule digits12_int)
qed

lemma all_hits_range: "n \<in> set (all_hits t) \<Longrightarrow> 0 \<le> n \<and> n \<le> 99"
proof -
  assume "n \<in> set (all_hits t)"
  then obtain p g where pg: "p \<in> set patterns" "g \<in> set (finditer p t)" "py_int g = Inr n"
    unfolding all_hits_set by blast
  then show ?thesis using pattern_group[OF pg(1,2)] by simp
qed

lemma all_hits_Nil: "all_hits t = [] \<longleftrightarrow> (\<forall>p\<in>set patterns. \<not> re_search p t)"
proof
  assume e: "all_hits t = []"
  show "\<forall>p\<in>set patterns. \<not> re_search p t"
  proof
    fix p assume p: "p \<in> set patterns"
    have "finditer p t = []"
    proof (rule ccontr)
      assume "finditer p t \<noteq> []"
      then obtain g where g: "g \<in> set (finditer p t)" by (cases "finditer p t") auto
      then obtain n where "py_int g = Inr n" using pattern_group[OF p g] by blast
      then have "n \<in> set (all_hits t)" unfolding all_hits_set using p g by blast
      then show False using e by simp
    qed
    then show "\<not> re_search p t"
      using finditer_empty_iff[of p None t] by (simp add: finditer_def re_search_def)
  qed
next
  assume a: "\<forall>p\<in>set patterns. \<not> re_search p t"
  show "all_hits t = []"
  proof (rule ccontr)
    assume "all_hits t \<noteq> []"
    then obtain n where "n \<in> set (all_hits t)" by (cases "all_hits t") auto
    then obtain p g where pg: "p \<in> set patterns" "g \<in> set (finditer p t)"
      unfolding all_hits_set by blast
    have "\<not> re_search p t" using a pg(1) by (rule bspec)
    then have "search_from p None t = None" unfolding re_search_def by blast
    then have "finditer p t = []"
      unfolding finditer_def using finditer_empty_iff[of p None t] by blast
    then show False using pg(2) by simp
  qed
qed


lemma ex_years:
  "extract_years_experience (Some ''5+ years of Python and at least 3 years of SQL'') = Some 3"
  by code_simp

text \<open>
  C3. The candidates are the integers of group 1 of every match of the four patterns.
  The result is null exactly when no pattern matches, and otherwise the least candidate;
  every group 1 is one or two digits, so no candidate fails to parse and the result lies
  between 0 and 99. A candidate on which \<open>int\<close> fails is skipped: the hits are those of
  the remaining candidates. The result is an integer, which \<open>Decimal\<close> represents
  exactly. A text with \<open>5+ years\<close> and \<open>at least 3 years\<close> gives 3.
\<close>

theorem extract_years_minimum:
  "(extract_years_experience x = None \<longleftrightarrow>
      (\<forall>p\<in>set patterns. \<not> re_search p (normalize_text (Some (or_empty x))))) \<and>
   set (all_hits t) =
      {n. \<exists>p\<in>set patterns. \<exists>g\<in>set (finditer p t). py_int g = Inr n} \<and>
   (\<forall>n. extract_years_experience x = Some n \<longrightarrow>
      n \<in> set (all_hits (normalize_text (Some (or_empty x)))) \<and>
      (\<forall>m\<in>set (all_hits (normalize_text (Some (or_empty x)))). n \<le> m) \<and>
      0 \<le> n \<and> n \<le> 99) \<and>
   (\<forall>g gs gs' hits. isl (py_int g) \<longrightarrow>
      collect_hits (gs @ g # gs') hits = collect_hits (gs @ gs') hits) \<and>
   (\<forall>p\<in>set patterns. \<forall>g\<in>set (finditer p t). \<not> isl (py_int g)) \<and>
   extract_years_experience (Some ''5+ years of Python and at least 3 years of SQL'') = Some 3"
proof -
  let ?t = "normalize_text (Some (or_empty x))"
  have 1: "extract_years_experience x = None \<longleftrightarrow> (\<forall>p\<in>set patterns. \<not> re_search p ?t)"
    using all_hits_Nil[of ?t] by (simp add: extract_years_experience_def Let_def)
  have 3: "\<forall>n. extract_years_experience x = Some n \<longrightarrow>
      n \<in> set (all_hits ?t) \<and> (\<forall>m\<in>set (all_hits ?t). n \<le> m) \<and> 0 \<le> n \<and> n \<le> 99"
  proof (intro allI impI)
    fix n assume a: "extract_years_experience x = Some n"
    then have ne: "all_hits ?t \<noteq> []" and n: "n = min_list (all_hits ?t)"
      by (auto simp add: extract_years_experience_def Let_def split: if_splits)
    have m: "n = Min (set (all_hits ?t))" using n min_list_Min[OF ne] by simp
    have i: "n \<in> set (all_hits ?t)" unfolding m using ne by (intro Min_in) simp_all
    have l: "\<forall>m\<in>set (all_hits ?t). n \<le> m" unfolding m by (intro ballI Min_le) simp_all
    show "n \<in> set (all_hits ?t) \<and> (\<forall>m\<in>set (all_hits ?t). n \<le> m) \<and> 0 \<le> n \<and> n \<le> 99"
      using i l all_hits_range[OF i] by (intro conjI) simp_all
  qed
  have 4: "\<forall>g gs gs' hits. isl (py_int g) \<longrightarrow>
      collect_hits (gs @ g # gs') hits = collect_hits (gs @ gs') hits"
    using collect_hits_skip by (intro allI impI)
  have 5: "\<forall>p\<in>set patterns. \<forall>g\<in>set (finditer p t). \<not> isl (py_int g)"
  proof (intro ballI)
    fix p g assume "p \<in> set patterns" "g \<in> set (finditer p t)"
    then obtain n where "py_int g = Inr n" using pattern_group by blast
    then show "\<not> isl (py_int g)" by simp
  qed
  show ?thesis using 1 all_hits_set[of t] 3 4 5 ex_years by (intro conjI)
qed

theorem extract_years_minimum_witness:
  "extract_years_experience (Some ''Minimum 7 yrs; 10+ years preferred'') = Some 7 \<and>
   7 \<in> set (all_hits (normalize_text (Some ''Minimum 7 yrs; 10+ years preferred''))) \<and>
   extract_years_experience (Some ''SQL analyst, 2024'') = None \<and>
   \<not> re_search (patterns ! 0) (normalize_text (Some ''SQL analyst, 2024'')) \<and>
   isl (py_int (Some ''x1'')) \<and>
   collect_hits [Some ''5'', Some ''x1'', Some ''3''] [] = [5, 3]"
proof -
  have a: "extract_years_experience (Some ''Minimum 7 yrs; 10+ years preferred'') = Some 7"
    by code_simp
  have b: "7 \<in> set (all_hits (normalize_text (Some ''Minimum 7 yrs; 10+ years preferred'')))"
    using extract_years_minimum[of "Some ''Minimum 7 yrs; 10+ years preferred''",
        THEN conjunct2, THEN conjunct2, THEN conjunct1, rule_format, OF a]
    by (simp add: or_empty_def)
  have c: "extract_years_experience (Some ''SQL analyst, 2024'') = None" by code_simp
  have "\<forall>p\<in>set patterns. \<not> re_search p (normalize_text (Some (or_empty (Some ''SQL analyst, 2024''))))"
    using extract_years_minimum[of "Some ''SQL analyst, 2024''", THEN conjunct1] c by (rule iffD1)
  moreover have "patterns ! 0 \<in> set patterns" by (simp add: patterns_def)
  ultimately have d: "\<not> re_search (patterns ! 0) (normalize_text (Some ''SQL analyst, 2024''))"
    by (simp add: or_empty_def)
  have e: "isl (py_int (Some ''x1''))" by code_simp
  have "collect_hits ([Some ''5''] @ Some ''x1'' # [Some ''3'']) [] =
      collect_hits ([Some ''5''] @ [Some ''3'']) []"
    using extract_years_minimum[THEN conjunct2, THEN conjunct2, THEN conjunct2, THEN conjunct1,
        rule_format, OF e] .
  moreover have "collect_hits ([Some ''5''] @ [Some ''3'']) [] = [5, 3]" by code_simp
  ultimately have f: "collect_hits [Some ''5'', Some ''x1'', Some ''3''] [] = [5, 3]" by simp
  show ?thesis using a b c d e f by (intro conjI)
qed


section \<open>The skill matcher\<close>

lemma search_from_split:
  "search_from r p s \<noteq> None \<longleftrightarrow>
     (\<exists>pre post. s = pre @ post \<and>
        rx_match r (if pre = [] then p else Some (last pre), post, None) \<noteq> [])"
proof (induction s arbitrary: p)
  case Nil
  then show ?case by (simp split: list.splits)
next
  case (Cons c cs)
  let ?R = "\<lambda>p s. \<exists>pre post. s = pre @ post \<and>
        rx_match r (if pre = [] then p else Some (last pre), post, None) \<noteq> []"
  have step: "?R p (c # cs) \<longleftrightarrow> rx_match r (p, c # cs, None) \<noteq> [] \<or> ?R (Some c) cs"
  proof
    assume "?R p (c # cs)"
    then obtain pre post where e: "c # cs = pre @ post"
        and m: "rx_match r (if pre = [] then p else Some (last pre), post, None) \<noteq> []" by blast
    show "rx_match r (p, c # cs, None) \<noteq> [] \<or> ?R (Some c) cs"
    proof (cases pre)
      case Nil
      then show ?thesis using e m by simp
    next
      case (Cons d pre')
      then have cs: "cs = pre' @ post" and d: "d = c" using e by simp_all
      have "(if pre = [] then p else Some (last pre)) =
          (if pre' = [] then Some c else Some (last pre'))" using Cons d by simp
      then have "rx_match r (if pre' = [] then Some c else Some (last pre'), post, None) \<noteq> []"
        using m by simp
      then have "?R (Some c) cs" using cs by blast
      then show ?thesis by blast
    qed
  next
    assume "rx_match r (p, c # cs, None) \<noteq> [] \<or> ?R (Some c) cs"
    then show "?R p (c # cs)"
    proof
      assume "rx_match r (p, c # cs, None) \<noteq> []"
      then have "c # cs = [] @ (c # cs) \<and>
          rx_match r (if ([] :: string) = [] then p else Some (last []), c # cs, None) \<noteq> []"
        by simp
      then show ?thesis by blast
    next
      assume "?R (Some c) cs"
      then obtain pre post where e: "cs = pre @ post"
        and m: "rx_match r (if pre = [] then Some c else Some (last pre), post, None) \<noteq> []"
        by blast
      have "c # cs = (c # pre) @ post" using e by simp
      moreover have "rx_match r (if c # pre = [] then p else Some (last (c # pre)), post, None) \<noteq> []"
        using m by (cases "pre = []") simp_all
      ultimately show ?thesis by blast
    qed
  qed
  show ?case
  proof (cases "rx_match r (p, c # cs, None)")
    case Nil
    have "search_from r p (c # cs) = search_from r (Some c) cs" using Nil by simp
    then show ?thesis unfolding step using Cons.IH[of "Some c"] Nil by simp
  next
    case (Cons m ms)
    then have "search_from r p (c # cs) \<noteq> None" by simp
    then show ?thesis unfolding step using Cons by simp
  qed
qed

lemma in_seqs_Cons:
  "m \<in> set (rx_match (seqs (r # rs)) st) \<longleftrightarrow>
     (\<exists>k\<in>set (rx_match r st). m \<in> set (rx_match (seqs rs) k))"
  by (simp add: seqs_def)

lemma in_seqs_Nil: "m \<in> set (rx_match (seqs []) st) \<longleftrightarrow> m = st"
  by (simp add: seqs_def)

lemma in_lit_i:
  "m \<in> set (rx_match (lit_i c) (p, s, g)) \<longleftrightarrow>
     (\<exists>d s'. s = d # s' \<and> lower_char d = lower_char c \<and> m = (Some d, s', g))"
  by (cases s) (auto simp add: lit_i_def)

lemma in_ws_run:
  "m \<in> set (rx_match ws_run (p, s, g)) \<longleftrightarrow>
     (\<exists>ws s'. ws \<noteq> [] \<and> (\<forall>x\<in>set ws. is_space x) \<and> s = ws @ s' \<and> m = (Some (last ws), s', g))"
proof
  let ?n = "length (takeWhile is_space s)"
  assume "m \<in> set (rx_match ws_run (p, s, g))"
  then have "m \<in> advance (p, s, g) ` set (rev [1..<Suc ?n])"
    by (simp add: ws_run_def Let_def del: upt_Suc)
  then obtain k where kk: "k \<in> set (rev [1..<Suc ?n])" and mk: "m = advance (p, s, g) k" by blast
  have k: "1 \<le> k" "k \<le> ?n" using kk by (auto simp del: upt_Suc)
  have kl: "k \<le> length s" using k(2) length_takeWhile_le[of is_space s] by linarith
  have "take k s = take k (takeWhile is_space s @ dropWhile is_space s)" by simp
  also have "\<dots> = take k (takeWhile is_space s)" using k(2) by (simp del: takeWhile_dropWhile_id)
  finally have tk: "take k s = take k (takeWhile is_space s)" .
  have sp: "\<forall>x\<in>set (take k s). is_space x"
  proof
    fix x assume "x \<in> set (take k s)"
    then have "x \<in> set (take k (takeWhile is_space s))" by (simp only: tk)
    then have "x \<in> set (takeWhile is_space s)" by (rule in_set_takeD)
    then show "is_space x" by (rule set_takeWhileD[THEN conjunct2])
  qed
  have ne: "take k s \<noteq> []" using k(1) kl by (cases s) auto
  have "last (take k s) = take k s ! (length (take k s) - 1)" using ne by (rule last_conv_nth)
  moreover have "length (take k s) = k" using kl by simp
  moreover have "take k s ! (k - 1) = s ! (k - 1)" using k(1) by simp
  ultimately have la: "last (take k s) = s ! (k - 1)" by simp
  have "m = (Some (last (take k s)), drop k s, g)" using mk k(1) la by (simp add: advance_def)
  moreover have "s = take k s @ drop k s" by simp
  ultimately show "\<exists>ws s'. ws \<noteq> [] \<and> (\<forall>x\<in>set ws. is_space x) \<and> s = ws @ s' \<and>
      m = (Some (last ws), s', g)" using ne sp by blast
next
  assume "\<exists>ws s'. ws \<noteq> [] \<and> (\<forall>x\<in>set ws. is_space x) \<and> s = ws @ s' \<and>
      m = (Some (last ws), s', g)"
  then obtain ws s' where ws: "ws \<noteq> []" "\<forall>x\<in>set ws. is_space x" "s = ws @ s'"
      and m: "m = (Some (last ws), s', g)" by blast
  let ?n = "length (takeWhile is_space s)"
  let ?k = "length ws"
  have tw: "takeWhile is_space s = ws @ takeWhile is_space s'"
    unfolding ws(3) using ws(2) by (simp add: takeWhile_append2)
  have k1: "1 \<le> ?k" using ws(1) by (cases ws) simp_all
  have k2: "?k \<le> ?n" unfolding tw by simp
  note k = k1 k2
  have "advance (p, s, g) ?k = (Some (s ! (?k - 1)), drop ?k s, g)"
    using ws(1) by (simp add: advance_def)
  moreover have "s ! (?k - 1) = last ws" using ws(1,3) by (simp add: nth_append last_conv_nth)
  moreover have "drop ?k s = s'" using ws(3) by simp
  ultimately have a: "advance (p, s, g) ?k = m" using m by simp
  have "?k \<in> set (rev [1..<Suc ?n])" using k by (simp del: upt_Suc)
  then have "advance (p, s, g) ?k \<in> advance (p, s, g) ` set (rev [1..<Suc ?n])" by (rule imageI)
  then show "m \<in> set (rx_match ws_run (p, s, g))"
    unfolding a by (simp add: ws_run_def Let_def del: upt_Suc)
qed


lemma alias_spelt_Nil: "alias_spelt [] m \<longleftrightarrow> m = []"
  by (auto intro: alias_spelt.intros elim: alias_spelt.cases)

lemma rx_match_alias_Nil: "rx_match (alias_pattern []) st = [st]"
  by (simp add: alias_pattern_def seqs_def)

lemma in_alias_Cons:
  "m \<in> set (rx_match (alias_pattern (c # a)) st) \<longleftrightarrow>
     (\<exists>k\<in>set (rx_match (alias_item c) st). m \<in> set (rx_match (alias_pattern a) k))"
  by (simp add: alias_pattern_def seqs_def)

lemma alias_sound:
  "m \<in> set (rx_match (alias_pattern a) (p, s, g)) \<Longrightarrow>
     \<exists>mid s'. s = mid @ s' \<and> alias_spelt a mid \<and>
        m = (if mid = [] then p else Some (last mid), s', g)"
proof (induction a arbitrary: p s)
  case Nil
  then have "m = (p, s, g)" by (simp add: rx_match_alias_Nil)
  then have "s = [] @ s \<and> alias_spelt [] [] \<and>
      m = (if ([] :: string) = [] then p else Some (last []), s, g)"
    by (simp add: spelt_Nil)
  then show ?case by blast
next
  case (Cons c a)
  obtain k where k: "k \<in> set (rx_match (alias_item c) (p, s, g))"
      and m: "m \<in> set (rx_match (alias_pattern a) k)"
    using Cons.prems in_alias_Cons by blast
  show ?case
  proof (cases "c = CHR '' ''")
    case True
    then have "k \<in> set (rx_match ws_run (p, s, g))" using k by (simp add: alias_item_def)
    then obtain ws s1 where ws: "ws \<noteq> []" "\<forall>x\<in>set ws. is_space x" "s = ws @ s1"
        and kk: "k = (Some (last ws), s1, g)" using in_ws_run by blast
    obtain mid s' where s1: "s1 = mid @ s'" and sp: "alias_spelt a mid"
        and mm: "m = (if mid = [] then Some (last ws) else Some (last mid), s', g)"
      using Cons.IH[of "Some (last ws)" s1] m kk by blast
    have 1: "s = (ws @ mid) @ s'" using ws(3) s1 by simp
    have 2: "alias_spelt (c # a) (ws @ mid)" unfolding True using ws(1,2) sp by (rule spelt_space)
    have 3: "m = (if ws @ mid = [] then p else Some (last (ws @ mid)), s', g)"
      using mm ws(1) by (cases "mid = []") simp_all
    show ?thesis using 1 2 3 by blast
  next
    case False
    then have "k \<in> set (rx_match (lit_i c) (p, s, g))" using k by (simp add: alias_item_def)
    then obtain d s1 where d: "s = d # s1" "lower_char d = lower_char c"
        and kk: "k = (Some d, s1, g)" using in_lit_i by blast
    obtain mid s' where s1: "s1 = mid @ s'" and sp: "alias_spelt a mid"
        and mm: "m = (if mid = [] then Some d else Some (last mid), s', g)"
      using Cons.IH[of "Some d" s1] m kk by blast
    have 1: "s = (d # mid) @ s'" using d(1) s1 by simp
    have 2: "alias_spelt (c # a) (d # mid)" using False d(2) sp by (rule spelt_char)
    have 3: "m = (if d # mid = [] then p else Some (last (d # mid)), s', g)"
      using mm by (cases "mid = []") simp_all
    show ?thesis using 1 2 3 by blast
  qed
qed

lemma alias_complete:
  "alias_spelt a mid \<Longrightarrow>
     (if mid = [] then p else Some (last mid), s', g) \<in> set (rx_match (alias_pattern a) (p, mid @ s', g))"
proof (induction arbitrary: p rule: alias_spelt.induct)
  case spelt_Nil
  then show ?case by (simp add: rx_match_alias_Nil)
next
  case (spelt_char c d a m)
  have k: "(Some d, m @ s', g) \<in> set (rx_match (alias_item c) (p, (d # m) @ s', g))"
    using spelt_char(1,2) by (simp add: alias_item_def in_lit_i)
  have "(if m = [] then Some d else Some (last m), s', g) \<in>
      set (rx_match (alias_pattern a) (Some d, m @ s', g))" by (rule spelt_char.IH)
  then have "(if d # m = [] then p else Some (last (d # m)), s', g) \<in>
      set (rx_match (alias_pattern a) (Some d, m @ s', g))" by (cases "m = []") simp_all
  then show ?case unfolding in_alias_Cons using k by blast
next
  case (spelt_space ws a m)
  have ai: "alias_item (CHR '' '') = ws_run" by (simp add: alias_item_def)
  have "\<exists>ws' s1. ws' \<noteq> [] \<and> (\<forall>x\<in>set ws'. is_space x) \<and> (ws @ m) @ s' = ws' @ s1 \<and>
      (Some (last ws), m @ s', g) = (Some (last ws'), s1, g)"
    using spelt_space(1,2) by (intro exI[of _ ws] exI[of _ "m @ s'"]) simp
  then have k: "(Some (last ws), m @ s', g) \<in>
      set (rx_match (alias_item (CHR '' '')) (p, (ws @ m) @ s', g))"
    unfolding ai in_ws_run .
  have "(if m = [] then Some (last ws) else Some (last m), s', g) \<in>
      set (rx_match (alias_pattern a) (Some (last ws), m @ s', g))" by (rule spelt_space.IH)
  then have "(if ws @ m = [] then p else Some (last (ws @ m)), s', g) \<in>
      set (rx_match (alias_pattern a) (Some (last ws), m @ s', g))"
    using spelt_space(1) by (cases "m = []") simp_all
  then show ?case unfolding in_alias_Cons using k by blast
qed

lemma set_alts:
  "rs \<noteq> [] \<Longrightarrow> set (rx_match (alts rs) st) = (\<Union>r\<in>set rs. set (rx_match r st))"
  by (induction rs rule: alts.induct) auto


lemma in_NotBehind:
  "k \<in> set (rx_match (NotBehind is_word) (p, s, g)) \<longleftrightarrow> k = (p, s, g) \<and> \<not> at_word p"
  by (cases p) (auto simp add: at_word_def)

lemma in_NotAhead:
  "m \<in> set (rx_match (NotAhead is_word) (p, s, g)) \<longleftrightarrow>
     m = (p, s, g) \<and> \<not> at_word (next_char s)"
  by (cases s) (auto simp add: at_word_def next_char_def)

lemma in_Grp:
  "k \<in> set (rx_match (Grp r) (p, s, g)) \<longleftrightarrow>
     (\<exists>p' s' g'. (p', s', g') \<in> set (rx_match r (p, s, g)) \<and>
        k = (p', s', Some (take (length s - length s') s)))"
  by (auto simp add: image_iff) force

lemma in_alias_alts:
  "al \<noteq> [] \<Longrightarrow>
     m \<in> set (rx_match (alts (map alias_pattern al)) st) \<longleftrightarrow>
       (\<exists>a\<in>set al. m \<in> set (rx_match (alias_pattern a) st))"
  using set_alts[of "map alias_pattern al" st] by simp

lemma skill_rx_unfold:
  "m \<in> set (rx_match (skill_rx al) st) \<longleftrightarrow>
     (\<exists>k1\<in>set (rx_match (NotBehind is_word) st).
        \<exists>k2\<in>set (rx_match (Grp (alts (map alias_pattern al))) k1).
          m \<in> set (rx_match (NotAhead is_word) k2))"
  by (simp add: skill_rx_def seqs_def del: rx_match.simps(6,8,9)) 

lemma skill_rx_match:
  assumes al: "al \<noteq> []"
  shows "rx_match (skill_rx al) (p, s, None) \<noteq> [] \<longleftrightarrow>
     \<not> at_word p \<and>
     (\<exists>a\<in>set al. \<exists>mid post. s = mid @ post \<and> alias_spelt a mid \<and>
        \<not> at_word (next_char post))"
proof
  assume "rx_match (skill_rx al) (p, s, None) \<noteq> []"
  then obtain m where "m \<in> set (rx_match (skill_rx al) (p, s, None))"
    by (cases "rx_match (skill_rx al) (p, s, None)") auto
  then obtain k1 k2 where k1: "k1 \<in> set (rx_match (NotBehind is_word) (p, s, None))"
      and k2: "k2 \<in> set (rx_match (Grp (alts (map alias_pattern al))) k1)"
      and m: "m \<in> set (rx_match (NotAhead is_word) k2)"
    unfolding skill_rx_unfold by blast
  have e1: "k1 = (p, s, None)" and np: "\<not> at_word p" using k1 in_NotBehind by blast+
  obtain p' s' g' where x: "(p', s', g') \<in> set (rx_match (alts (map alias_pattern al)) (p, s, None))"
      and e2: "k2 = (p', s', Some (take (length s - length s') s))"
    using k2 unfolding e1 in_Grp by blast
  obtain a where a: "a \<in> set al" "(p', s', g') \<in> set (rx_match (alias_pattern a) (p, s, None))"
    using x in_alias_alts[OF al] by blast
  obtain mid post where sp: "s = mid @ post" "alias_spelt a mid"
      and e3: "(p', s', g') = (if mid = [] then p else Some (last mid), post, None)"
    using alias_sound[OF a(2)] by blast
  have "\<not> at_word (next_char s')" using m unfolding e2 in_NotAhead by blast
  then have "\<not> at_word (next_char post)" using e3 by simp
  then show "\<not> at_word p \<and>
     (\<exists>a\<in>set al. \<exists>mid post. s = mid @ post \<and> alias_spelt a mid \<and>
        \<not> at_word (next_char post))" using np a(1) sp by blast
next
  assume "\<not> at_word p \<and>
     (\<exists>a\<in>set al. \<exists>mid post. s = mid @ post \<and> alias_spelt a mid \<and>
        \<not> at_word (next_char post))"
  then obtain a mid post where np: "\<not> at_word p" and a: "a \<in> set al"
      and sp: "s = mid @ post" "alias_spelt a mid" and na: "\<not> at_word (next_char post)"
    by blast
  let ?p' = "if mid = [] then p else Some (last mid)"
  let ?g = "Some (take (length s - length post) s)"
  have "(?p', post, None) \<in> set (rx_match (alias_pattern a) (p, mid @ post, None))"
    using sp(2) by (rule alias_complete)
  then have "(?p', post, None) \<in> set (rx_match (alts (map alias_pattern al)) (p, s, None))"
    using a sp(1) in_alias_alts[OF al] by blast
  then have k2: "(?p', post, ?g) \<in> set (rx_match (Grp (alts (map alias_pattern al))) (p, s, None))"
    unfolding in_Grp by blast
  have k1: "(p, s, None) \<in> set (rx_match (NotBehind is_word) (p, s, None))"
    unfolding in_NotBehind using np by simp
  have m: "(?p', post, ?g) \<in> set (rx_match (NotAhead is_word) (?p', post, ?g))"
    unfolding in_NotAhead using na by simp
  have "(?p', post, ?g) \<in> set (rx_match (skill_rx al) (p, s, None))"
    unfolding skill_rx_unfold using k1 k2 m by blast
  then show "rx_match (skill_rx al) (p, s, None) \<noteq> []" by auto
qed

lemma at_word_prev: "at_word (if pre = [] then None else Some (last pre)) \<longleftrightarrow> pre \<noteq> [] \<and> is_word (last pre)"
  by (simp add: at_word_def)

lemma at_word_next: "at_word (next_char post) \<longleftrightarrow> post \<noteq> [] \<and> is_word (hd post)"
  by (cases post) (simp_all add: at_word_def next_char_def)

lemma skill_search:
  assumes al: "al \<noteq> []"
  shows "re_search (skill_rx al) t \<longleftrightarrow> (\<exists>a\<in>set al. occurs_as_phrase a t)"
proof
  assume "re_search (skill_rx al) t"
  then obtain pre rest where t: "t = pre @ rest"
      and m: "rx_match (skill_rx al) (if pre = [] then None else Some (last pre), rest, None) \<noteq> []"
    unfolding re_search_def search_from_split by blast
  obtain a mid post where np: "\<not> at_word (if pre = [] then None else Some (last pre))"
      and a: "a \<in> set al" and sp: "rest = mid @ post" "alias_spelt a mid"
      and na: "\<not> at_word (next_char post)"
    using m unfolding skill_rx_match[OF al] by blast
  have "t = pre @ mid @ post" using t sp(1) by simp
  moreover have "pre = [] \<or> \<not> is_word (last pre)" using np unfolding at_word_prev by blast
  moreover have "post = [] \<or> \<not> is_word (hd post)" using na unfolding at_word_next by blast
  ultimately have "occurs_as_phrase a t" unfolding occurs_as_phrase_def using sp(2) by blast
  then show "\<exists>a\<in>set al. occurs_as_phrase a t" using a by blast
next
  assume "\<exists>a\<in>set al. occurs_as_phrase a t"
  then obtain a pre mid post where a: "a \<in> set al" and t: "t = pre @ mid @ post"
      and sp: "alias_spelt a mid" and b: "pre = [] \<or> \<not> is_word (last pre)"
      and e: "post = [] \<or> \<not> is_word (hd post)"
    unfolding occurs_as_phrase_def by blast
  have np: "\<not> at_word (if pre = [] then None else Some (last pre))"
    unfolding at_word_prev using b by blast
  have na: "\<not> at_word (next_char post)" unfolding at_word_next using e by blast
  have "rx_match (skill_rx al) (if pre = [] then None else Some (last pre), mid @ post, None) \<noteq> []"
    unfolding skill_rx_match[OF al] using np a sp na by blast
  then have "search_from (skill_rx al) None t \<noteq> None"
    unfolding search_from_split using t by blast
  then show "re_search (skill_rx al) t" unfolding re_search_def .
qed


lemma compiled_rx:
  "compile_entries m = Inr cs \<Longrightarrow> (c, rx) \<in> set cs \<Longrightarrow>
     \<exists>k v xs. (k, v) \<in> set m \<and> py_iter v = Inr xs \<and>
        c = lower (strip (py_str k)) \<and> rx = skill_rx (alias_list_of xs)"
proof (induction m arbitrary: cs)
  case Nil
  then show ?case by simp
next
  case (Cons kv m)
  obtain k v where kv: "kv = (k, v)" by (cases kv)
  show ?case
  proof (cases "truthy v")
    case False
    then have "compile_entries m = Inr cs" using Cons.prems(1) kv by simp
    then obtain k' v' xs where "(k', v') \<in> set m" "py_iter v' = Inr xs"
        "c = lower (strip (py_str k'))" "rx = skill_rx (alias_list_of xs)"
      using Cons.IH Cons.prems(2) by blast
    then show ?thesis by (intro exI[of _ k'] exI[of _ v'] exI[of _ xs]) simp
  next
    case True
    then obtain xs cs' where xs: "py_iter v = Inr xs" and cs': "compile_entries m = Inr cs'"
        and cs: "cs = (lower (strip (py_str k)), skill_rx (alias_list_of xs)) # cs'"
      using Cons.prems(1) kv by (auto simp add: Let_def split: sum.splits)
    show ?thesis
    proof (cases "(c, rx) \<in> set cs'")
      case True
      then obtain k' v' xs' where "(k', v') \<in> set m" "py_iter v' = Inr xs'"
          "c = lower (strip (py_str k'))" "rx = skill_rx (alias_list_of xs')"
        using Cons.IH[OF cs'] by blast
      then show ?thesis by (intro exI[of _ k'] exI[of _ v'] exI[of _ xs']) simp
    next
      case False
      then have "c = lower (strip (py_str k))" "rx = skill_rx (alias_list_of xs)"
        using Cons.prems(2) cs by simp_all
      then show ?thesis using xs kv by (intro exI[of _ k] exI[of _ v] exI[of _ xs]) simp
    qed
  qed
qed

lemma reported_iff:
  "c \<in> set (fst (extract_skills cs x)) \<longleftrightarrow>
     (\<exists>rx. (c, rx) \<in> set cs \<and> re_search rx (normalize_text (Some (or_empty x))))"
  by (auto simp add: extract_skills_def Let_def image_iff)

lemma spelt_lits:
  "\<forall>c\<in>set w. c \<noteq> CHR '' '' \<Longrightarrow> alias_spelt a m \<Longrightarrow> alias_spelt (w @ a) (w @ m)"
  by (induction w) (simp_all add: spelt_char)

lemma ex_skills:
  "load_and_extract (CMap [(SStr ''java'', YList [SStr ''java''])])
     (Some ''javascript developer role'') = Inr ([], [])"
  "load_and_extract (CMap [(SStr ''power bi'', YList [SStr ''power bi''])]) (Some ''Power BI'') =
     Inr ([''power bi''], [''power bi''])"
  "load_and_extract (CMap [(SStr ''power bi'', YList [SStr ''power bi''])]) (Some ''power-bi'') =
     Inr ([''power bi''], [''power bi''])"
  "load_and_extract (CMap [(SStr ''power bi'', YList [SStr ''power bi''])]) (Some ''powerbike'') =
     Inr ([], [])"
  by code_simp+

text \<open>
  C1. The matcher compiled for a non-empty alias list finds a match in a text exactly when
  one of the aliases occurs in it as a whole phrase: the occurrence spells the alias up to
  case, each space of the alias standing for one or more whitespace characters, and it is
  neither preceded nor followed by a word character. Every compiled matcher is the matcher
  of the trimmed, lower-cased aliases of an entry of the dictionary, and a skill is
  reported exactly when its matcher finds a match in the normalised text. The alias
  \<open>java\<close> does not match \<open>javascript developer role\<close>; the alias
  \<open>power bi\<close> matches \<open>Power BI\<close> and \<open>power-bi\<close> and not
  \<open>powerbike\<close>.
\<close>

theorem skill_match_whole_phrase:
  "(alias_list \<noteq> [] \<longrightarrow>
      (re_search (skill_rx alias_list) t \<longleftrightarrow> (\<exists>a\<in>set alias_list. occurs_as_phrase a t))) \<and>
   (compile_entries m = Inr cs \<and> (c, rx) \<in> set cs \<longrightarrow>
      (\<exists>k v xs. (k, v) \<in> set m \<and> py_iter v = Inr xs \<and>
         c = lower (strip (py_str k)) \<and> rx = skill_rx (alias_list_of xs))) \<and>
   (c \<in> set (fst (extract_skills cs x)) \<longleftrightarrow>
      (\<exists>rx. (c, rx) \<in> set cs \<and> re_search rx (normalize_text (Some (or_empty x))))) \<and>
   load_and_extract (CMap [(SStr ''java'', YList [SStr ''java''])])
     (Some ''javascript developer role'') = Inr ([], []) \<and>
   load_and_extract (CMap [(SStr ''power bi'', YList [SStr ''power bi''])]) (Some ''Power BI'') =
     Inr ([''power bi''], [''power bi'']) \<and>
   load_and_extract (CMap [(SStr ''power bi'', YList [SStr ''power bi''])]) (Some ''power-bi'') =
     Inr ([''power bi''], [''power bi'']) \<and>
   load_and_extract (CMap [(SStr ''power bi'', YList [SStr ''power bi''])]) (Some ''powerbike'') =
     Inr ([], [])"
proof -
  have 1: "alias_list \<noteq> [] \<longrightarrow>
      (re_search (skill_rx alias_list) t \<longleftrightarrow> (\<exists>a\<in>set alias_list. occurs_as_phrase a t))"
    using skill_search by (intro impI)
  have 2: "compile_entries m = Inr cs \<and> (c, rx) \<in> set cs \<longrightarrow>
      (\<exists>k v xs. (k, v) \<in> set m \<and> py_iter v = Inr xs \<and>
         c = lower (strip (py_str k)) \<and> rx = skill_rx (alias_list_of xs))"
    using compiled_rx[of m cs c rx] by (intro impI) (elim conjE)
  show ?thesis
    using 1 2 reported_iff[of c cs x] ex_skills(1) ex_skills(2) ex_skills(3) ex_skills(4)
    by (intro conjI)
qed

theorem skill_match_whole_phrase_witness:
  "[''power bi''] \<noteq> [] \<and> occurs_as_phrase ''power bi'' ''use power  bi daily'' \<and>
   re_search (skill_rx [''power bi'']) ''use power  bi daily'' \<and>
   \<not> occurs_as_phrase ''java'' ''javascript developer role''"
proof -
  have ne: "[''power bi''] \<noteq> []" by simp
  have "alias_spelt [] []" by (rule spelt_Nil)
  then have "alias_spelt (''bi'' @ []) (''bi'' @ [])" by (intro spelt_lits) simp_all
  then have "alias_spelt (CHR '' '' # ''bi'') (''  '' @ ''bi'')"
    by (intro spelt_space) (simp_all add: is_space_def)
  then have "alias_spelt (''power'' @ CHR '' '' # ''bi'') (''power'' @ ''  '' @ ''bi'')"
    by (intro spelt_lits) simp_all
  then have sp: "alias_spelt ''power bi'' ''power  bi''" by simp
  have "''use power  bi daily'' = ''use '' @ ''power  bi'' @ '' daily'' \<and>
      alias_spelt ''power bi'' ''power  bi'' \<and>
      (''use '' = [] \<or> \<not> is_word (last ''use '')) \<and>
      ('' daily'' = [] \<or> \<not> is_word (hd '' daily''))"
    using sp by (simp add: is_word_def)
  then have o: "occurs_as_phrase ''power bi'' ''use power  bi daily''"
    unfolding occurs_as_phrase_def by blast
  then have "\<exists>a\<in>set [''power bi'']. occurs_as_phrase a ''use power  bi daily''" by simp
  then have r: "re_search (skill_rx [''power bi'']) ''use power  bi daily''"
    using skill_match_whole_phrase[of "[''power bi'']" "''use power  bi daily''", THEN conjunct1]
      ne by blast
  have j: "[''java''] \<noteq> []" by simp
  have "\<not> re_search (skill_rx [''java'']) ''javascript developer role''" by code_simp
  then have "\<not> (\<exists>a\<in>set [''java'']. occurs_as_phrase a ''javascript developer role'')"
    using skill_match_whole_phrase[of "[''java'']" "''javascript developer role''", THEN conjunct1]
      j by blast
  then have n: "\<not> occurs_as_phrase ''java'' ''javascript developer role''" by simp
  show ?thesis using ne o r n by (intro conjI)
qed

end
